theory Spec2Isabelle
  imports Main "HOL-Library.Sublist"
begin

section \<open>Strings\<close>

text \<open>
  A JavaScript string is modelled as a \<^typ>\<open>string\<close>: a list of code units, one
  \<^typ>\<open>char\<close> each, so the model covers the texts whose code units are below 256. The
  characters every function of \<open>extractors.ts\<close> looks for (braces, quotes, backslash, the
  letters and digits of its patterns) are ASCII.
\<close>

abbreviation dq :: char where "dq \<equiv> CHR 0x22"
abbreviation sq :: char where "sq \<equiv> CHR 0x27"
abbreviation bsl :: char where "bsl \<equiv> CHR 0x5C"
abbreviation nl :: char where "nl \<equiv> CHR 0x0A"

text \<open>
  \<open>s.substring(a, b)\<close>: both indices are clamped to \<open>[0, s.length]\<close> and swapped when
  \<open>a > b\<close>.
\<close>

definition substring :: "string \<Rightarrow> int \<Rightarrow> int \<Rightarrow> string" where
  "substring s a b =
     (let n = int (length s);
          a' = max 0 (min a n);
          b' = max 0 (min b n);
          lo = min a' b';
          hi = max a' b'
      in take (nat (hi - lo)) (drop (nat lo) s))"

section \<open>Regular expressions\<close>

text \<open>
  The patterns of \<open>extractors.ts\<close> are regular-expression literals, matched by the
  backtracking matcher of the language. The fragment they use is embedded here: character
  classes, sequence, alternation, the greedy quantifiers \<open>*\<close>, \<open>+\<close>, \<open>?\<close> and
  \<open>{n}\<close>, one capturing group, the assertions \<open>^\<close>, \<open>$\<close> and \<open>\b\<close>, and the flag
  \<open>i\<close>. No pattern modelled below carries the flag \<open>m\<close>, so \<open>^\<close> and \<open>$\<close> stand for the
  start and the end of the whole subject.
\<close>

definition is_digit :: "char \<Rightarrow> bool" where
  "is_digit c = (let n = (of_char c :: nat) in 48 \<le> n \<and> n \<le> 57)"

definition is_upper :: "char \<Rightarrow> bool" where
  "is_upper c = (let n = (of_char c :: nat) in 65 \<le> n \<and> n \<le> 90)"

definition is_lower :: "char \<Rightarrow> bool" where
  "is_lower c = (let n = (of_char c :: nat) in 97 \<le> n \<and> n \<le> 122)"

text \<open>\<open>\w\<close> is \<open>[A-Za-z0-9_]\<close>.\<close>

definition is_word :: "char \<Rightarrow> bool" where
  "is_word c = (is_upper c \<or> is_lower c \<or> is_digit c \<or> c = CHR ''_'')"

text \<open>
  \<open>\s\<close>: tab, line feed, vertical tab, form feed, carriage return, space and the
  no-break space (the white space and line terminators that fit in one \<^typ>\<open>char\<close>).
\<close>

definition is_space :: "char \<Rightarrow> bool" where
  "is_space c = (let n = (of_char c :: nat) in (9 \<le> n \<and> n \<le> 13) \<or> n = 32 \<or> n = 160)"

definition ascii_upper :: "char \<Rightarrow> char" where
  "ascii_upper c = (if is_lower c then char_of ((of_char c :: nat) - 32) else c)"

definition ascii_lower :: "char \<Rightarrow> char" where
  "ascii_lower c = (if is_upper c then char_of ((of_char c :: nat) + 32) else c)"

definition in_range :: "char \<Rightarrow> char \<Rightarrow> char \<Rightarrow> bool" where
  "in_range lo hi c = ((of_char lo :: nat) \<le> of_char c \<and> (of_char c :: nat) \<le> of_char hi)"

datatype citem = CChar char | CRange char char | CDigit | CWord | CSpace

text \<open>
  Whether a class member accepts a character; \<open>ci\<close> is the flag \<open>i\<close>. Under \<open>i\<close> both
  sides are canonicalised by upper-casing. Every literal and range of the patterns below
  is ASCII, and canonicalisation never maps a character outside ASCII into ASCII, so
  upper-casing the ASCII letters is all that is needed.
\<close>

fun item_match :: "bool \<Rightarrow> citem \<Rightarrow> char \<Rightarrow> bool" where
  "item_match ci (CChar x) c = (if ci then ascii_upper c = ascii_upper x else c = x)"
| "item_match ci (CRange lo hi) c =
     (in_range lo hi c \<or> (ci \<and> (in_range lo hi (ascii_upper c) \<or> in_range lo hi (ascii_lower c))))"
| "item_match ci CDigit c = is_digit c"
| "item_match ci CWord c = is_word c"
| "item_match ci CSpace c = is_space c"

definition class_match :: "bool \<Rightarrow> citem list \<Rightarrow> char \<Rightarrow> bool" where
  "class_match ci items c = list_ex (\<lambda>it. item_match ci it c) items"

datatype rx =
    Eps
  | Cls "citem list"
  | NCls "citem list"
  | Seq rx rx
  | Alt rx rx
  | Star rx
  | Opt rx
  | Grp rx
  | Bol
  | Eol
  | WordB

text \<open>
  A matcher state: the index reached, the character before it (none at index 0), the rest
  of the subject from the index on, and what group 1 captured.
\<close>

datatype mstate = MState (pos: nat) (prev: "char option") (rest: string) (cap: "string option")

definition word_at :: "char option \<Rightarrow> bool" where
  "word_at c = (case c of None \<Rightarrow> False | Some x \<Rightarrow> is_word x)"

definition next_char :: "string \<Rightarrow> char option" where
  "next_char s = (case s of [] \<Rightarrow> None | c # _ \<Rightarrow> Some c)"

text \<open>
  \<open>ms ci r st\<close> lists the states in which \<open>r\<close> can end when started in \<open>st\<close>, in the
  order in which backtracking tries them: the left alternative before the right one, one
  more iteration of a greedy quantifier before none. An iteration of \<open>*\<close> or \<open>?\<close> that
  consumes nothing is rejected, as the language prescribes.
\<close>

function ms :: "bool \<Rightarrow> rx \<Rightarrow> mstate \<Rightarrow> mstate list" where
  "ms ci Eps st = [st]"
| "ms ci (Cls items) st =
     (case rest st of
        [] \<Rightarrow> []
      | c # cs \<Rightarrow> if class_match ci items c then [MState (pos st + 1) (Some c) cs (cap st)] else [])"
| "ms ci (NCls items) st =
     (case rest st of
        [] \<Rightarrow> []
      | c # cs \<Rightarrow> if class_match ci items c then [] else [MState (pos st + 1) (Some c) cs (cap st)])"
| "ms ci (Seq a b) st = concat (map (ms ci b) (ms ci a st))"
| "ms ci (Alt a b) st = ms ci a st @ ms ci b st"
| "ms ci (Star a) st =
     concat (map (\<lambda>st'. if length (rest st') < length (rest st) then ms ci (Star a) st' else [])
                 (ms ci a st)) @ [st]"
| "ms ci (Opt a) st = filter (\<lambda>st'. length (rest st') < length (rest st)) (ms ci a st) @ [st]"
| "ms ci (Grp a) st =
     map (\<lambda>st'. MState (pos st') (prev st') (rest st') (Some (take (pos st' - pos st) (rest st))))
         (ms ci a st)"
| "ms ci Bol st = (if pos st = 0 then [st] else [])"
| "ms ci Eol st = (if rest st = [] then [st] else [])"
| "ms ci WordB st = (if word_at (prev st) \<noteq> word_at (next_char (rest st)) then [st] else [])"
  by pat_completeness auto
termination
  by (relation "measures [\<lambda>(ci, r, st). size r, \<lambda>(ci, r, st). length (rest st)]") auto

text \<open>
  The first match of \<open>r\<close> at or after the given index: the index where it starts and the
  state where it ends. Each start index is tried in turn, with no capture yet.
\<close>

fun search :: "bool \<Rightarrow> rx \<Rightarrow> nat \<Rightarrow> char option \<Rightarrow> string \<Rightarrow> (nat \<times> mstate) option" where
  "search ci r i p [] =
     (case ms ci r (MState i p [] None) of
        e # _ \<Rightarrow> Some (i, e)
      | [] \<Rightarrow> None)"
| "search ci r i p (c # cs) =
     (case ms ci r (MState i p (c # cs) None) of
        e # _ \<Rightarrow> Some (i, e)
      | [] \<Rightarrow> search ci r (i + 1) (Some c) cs)"

text \<open>\<open>text.match(re)\<close> for a pattern without the flag \<open>g\<close>, and \<open>re.test(text)\<close>.\<close>

definition rx_match :: "bool \<Rightarrow> rx \<Rightarrow> string \<Rightarrow> (nat \<times> mstate) option" where
  "rx_match ci r text = search ci r 0 None text"

definition rx_test :: "bool \<Rightarrow> rx \<Rightarrow> string \<Rightarrow> bool" where
  "rx_test ci r text = (rx_match ci r text \<noteq> None)"

text \<open>\<open>m[0]\<close> and \<open>m[1]\<close> of a match \<open>m\<close> of \<open>text\<close>.\<close>

definition whole :: "string \<Rightarrow> nat \<times> mstate \<Rightarrow> string" where
  "whole text m = take (pos (snd m) - fst m) (drop (fst m) text)"

text \<open>
  In every pattern whose group is read, the group lies on each path to a match, so
  \<open>m[1]\<close> is never \<open>undefined\<close>.
\<close>

definition group1 :: "nat \<times> mstate \<Rightarrow> string" where
  "group1 m = (case cap (snd m) of None \<Rightarrow> [] | Some s \<Rightarrow> s)"

text \<open>\<open>text.replace(re, '')\<close> for a pattern without the flag \<open>g\<close>: the first match is removed.\<close>

definition replace_first :: "bool \<Rightarrow> rx \<Rightarrow> string \<Rightarrow> string" where
  "replace_first ci r text =
     (case rx_match ci r text of
        None \<Rightarrow> text
      | Some m \<Rightarrow> take (fst m) text @ rest (snd m))"

text \<open>
  \<open>text.replace(re, '')\<close> for a pattern with the flag \<open>g\<close>: every match is removed, the
  search resuming where the last match ended, one character further after an empty match.
  A match never ends before it starts, so the test on the lengths tells an empty match
  from one that consumed something.
\<close>

function replace_from :: "bool \<Rightarrow> rx \<Rightarrow> nat \<Rightarrow> char option \<Rightarrow> string \<Rightarrow> string" where
  "replace_from ci r i p s =
     (case ms ci r (MState i p s None) of
        e # _ \<Rightarrow>
          if length (rest e) < length s then replace_from ci r (pos e) (prev e) (rest e)
          else (case s of [] \<Rightarrow> [] | c # cs \<Rightarrow> c # replace_from ci r (i + 1) (Some c) cs)
      | [] \<Rightarrow> (case s of [] \<Rightarrow> [] | c # cs \<Rightarrow> c # replace_from ci r (i + 1) (Some c) cs))"
  by pat_completeness auto
termination
  by (relation "measure (\<lambda>(ci, r, i, p, s). length s)") auto

definition replace_all :: "bool \<Rightarrow> rx \<Rightarrow> string \<Rightarrow> string" where
  "replace_all ci r text = replace_from ci r 0 None text"

text \<open>Shorthands for writing the patterns down.\<close>

definition Chr :: "char \<Rightarrow> rx" where
  "Chr c = Cls [CChar c]"

definition Plus :: "rx \<Rightarrow> rx" where
  "Plus r = Seq r (Star r)"

fun seqs :: "rx list \<Rightarrow> rx" where
  "seqs [] = Eps"
| "seqs [r] = r"
| "seqs (r # rs) = Seq r (seqs rs)"

fun alts :: "rx list \<Rightarrow> rx" where
  "alts [] = Eps"
| "alts [r] = r"
| "alts (r # rs) = Alt r (alts rs)"

definition lit :: "string \<Rightarrow> rx" where
  "lit s = seqs (map Chr s)"

fun times :: "nat \<Rightarrow> rx \<Rightarrow> rx" where
  "times 0 r = Eps"
| "times (Suc n) r = Seq r (times n r)"

abbreviation ws :: rx where "ws \<equiv> Star (Cls [CSpace])"
abbreviation ws1 :: rx where "ws1 \<equiv> Plus (Cls [CSpace])"
abbreviation digit :: rx where "digit \<equiv> Cls [CDigit]"
abbreviation nonspace :: rx where "nonspace \<equiv> NCls [CSpace]"

section \<open>Log-prefix stripping: \<open>stripLogPrefixes\<close>\<close>

text \<open>\<open>text.split('\n')\<close> and \<open>lines.join('\n')\<close>.\<close>

fun split_nl :: "string \<Rightarrow> string list" where
  "split_nl [] = [[]]"
| "split_nl (c # cs) =
     (if c = nl then [] # split_nl cs
      else (case split_nl cs of [] \<Rightarrow> [[c]] | l # ls \<Rightarrow> (c # l) # ls))"

fun join_nl :: "string list \<Rightarrow> string" where
  "join_nl [] = []"
| "join_nl [l] = l"
| "join_nl (l # ls) = l @ nl # join_nl ls"

text \<open>\<^verbatim>\<open>/^flutter:\s*/i\<close>\<close>

definition FLUTTER_PREFIX :: rx where
  "FLUTTER_PREFIX = seqs [Bol, lit ''flutter:'', ws]"

text \<open>\<^verbatim>\<open>/^[IDWEV]\/[\w.]+\s*\(\s*\d+\):\s*/g\<close>\<close>

definition LOGCAT_PREFIX :: rx where
  "LOGCAT_PREFIX =
     seqs [Bol, Cls [CChar CHR ''I'', CChar CHR ''D'', CChar CHR ''W'', CChar CHR ''E'', CChar CHR ''V''],
           Chr CHR ''/'', Plus (Cls [CWord, CChar CHR ''.'']), ws, Chr CHR ''('', ws, Plus digit,
           Chr CHR '')'', Chr CHR '':'', ws]"

text \<open>\<^verbatim>\<open>/^\[\d{4}[^\]]*\]\s*[\w.]*:\s*/g\<close>\<close>

definition LARAVEL_PREFIX :: rx where
  "LARAVEL_PREFIX =
     seqs [Bol, Chr CHR ''['', times 4 digit, Star (NCls [CChar CHR '']'']), Chr CHR '']'', ws,
           Star (Cls [CWord, CChar CHR ''.'']), Chr CHR '':'', ws]"

text \<open>\<^verbatim>\<open>/^\d{4}-\d{2}-\d{2}[T ]\d{2}:\d{2}:\d{2}[\d.]*Z?\s*/g\<close>\<close>

definition ISO_PREFIX :: rx where
  "ISO_PREFIX =
     seqs [Bol, times 4 digit, Chr CHR ''-'', times 2 digit, Chr CHR ''-'', times 2 digit,
           Cls [CChar CHR ''T'', CChar CHR '' ''], times 2 digit, Chr CHR '':'', times 2 digit,
           Chr CHR '':'', times 2 digit, Star (Cls [CDigit, CChar CHR ''.'']), Opt (Chr CHR ''Z''), ws]"

text \<open>\<^verbatim>\<open>/^\[Nest\]\s*\d+\s*-\s*[^[]+(?:\[[\w]+\]\s*)?/g\<close>\<close>

definition NEST_PREFIX :: rx where
  "NEST_PREFIX =
     seqs [Bol, lit ''[Nest]'', ws, Plus digit, ws, Chr CHR ''-'', ws, Plus (NCls [CChar CHR ''['']),
           Opt (seqs [Chr CHR ''['', Plus (Cls [CWord]), Chr CHR '']'', ws])]"

text \<open>\<^verbatim>\<open>/^>\s*/g\<close>\<close>

definition PROMPT_PREFIX :: rx where
  "PROMPT_PREFIX = seqs [Bol, Chr CHR ''>'', ws]"

text \<open>The chain of \<open>replace\<close> calls applied to one line, in the order of the source.\<close>

definition stripLine :: "string \<Rightarrow> string" where
  "stripLine line =
     replace_all False PROMPT_PREFIX
       (replace_all False NEST_PREFIX
         (replace_all False ISO_PREFIX
           (replace_all False LARAVEL_PREFIX
             (replace_all False LOGCAT_PREFIX
               (replace_first True FLUTTER_PREFIX line)))))"

definition stripLogPrefixes :: "string \<Rightarrow> string" where
  "stripLogPrefixes text = join_nl (map stripLine (split_nl text))"

section \<open>The block scanner: \<open>extractBalancedBlocks\<close>\<close>

record TextBlock =
  content :: string
  startIndex :: int
  endIndex :: int
  precedingText :: string

text \<open>
  The local variables of \<open>extractBalancedBlocks\<close>. \<open>stringChar\<close> is a JavaScript
  string: empty at first, the one-character opening quote afterwards.
\<close>

record scan_state =
  blocks :: "TextBlock list"
  depth :: int
  blockStart :: int
  inString :: bool
  stringChar :: string

definition scan_init :: scan_state where
  "scan_init = \<lparr>blocks = [], depth = 0, blockStart = - 1, inString = False, stringChar = []\<rparr>"

text \<open>
  One iteration of the \<open>for\<close> loop at index \<open>i < text.length\<close>: the pair of the next
  index (the loop's own \<open>i++\<close> included) and the next state.
\<close>

definition scan_step :: "string \<Rightarrow> nat \<Rightarrow> scan_state \<Rightarrow> nat \<times> scan_state" where
  "scan_step text i st =
     (let ch = text ! i in
      if inString st then
        if ch = bsl then (i + 2, st)
        else if [ch] = stringChar st then (i + 1, st\<lparr>inString := False\<rparr>)
        else (i + 1, st)
      else if ch = dq \<or> ch = sq then (i + 1, st\<lparr>inString := True, stringChar := [ch]\<rparr>)
      else if ch = CHR ''{'' then
        (i + 1, st\<lparr>depth := depth st + 1,
                     blockStart := (if depth st = 0 then int i else blockStart st)\<rparr>)
      else if ch = CHR ''}'' then
        (let d = depth st - 1;
             st1 = (if d = 0 \<and> blockStart st \<noteq> - 1
                    then st\<lparr>blocks := blocks st @
                             [\<lparr>content = substring text (blockStart st) (int i + 1),
                               startIndex = blockStart st,
                               endIndex = int i,
                               precedingText =
                                 substring text (max 0 (blockStart st - 300)) (blockStart st)\<rparr>],
                            blockStart := - 1\<rparr>
                    else st)
         in (i + 1, st1\<lparr>depth := (if d < 0 then 0 else d)\<rparr>))
      else (i + 1, st))"

function scan_loop :: "string \<Rightarrow> nat \<Rightarrow> scan_state \<Rightarrow> scan_state" where
  "scan_loop text i st =
     (if i < length text
      then scan_loop text (fst (scan_step text i st)) (snd (scan_step text i st))
      else st)"
  by pat_completeness auto
termination
  by (relation "measure (\<lambda>(text, i, st). length text - i)")
     (auto simp: scan_step_def Let_def)

definition extractBalancedBlocks :: "string \<Rightarrow> TextBlock list" where
  "extractBalancedBlocks text = blocks (scan_loop text 0 scan_init)"


section \<open>Body selection: \<open>scoreBlock\<close> and \<open>extractBody\<close>\<close>

record ScoredBlock =
  block :: TextBlock
  score :: int
  reason :: string

text \<open>The tail shared by most markers: \<^verbatim>\<open>\s*[:=]\s*$\<close>.\<close>

abbreviation colon_or_eq :: rx where
  "colon_or_eq \<equiv> Cls [CChar CHR '':'', CChar CHR ''='']"

abbreviation sep3 :: rx where
  "sep3 \<equiv> Opt (Cls [CChar CHR ''-'', CChar CHR ''_'', CChar CHR '' ''])"

abbreviation sep2 :: rx where
  "sep2 \<equiv> Opt (Cls [CChar CHR ''-'', CChar CHR ''_''])"

text \<open>
  \<open>BODY_MARKERS\<close>, all with the flag \<open>i\<close>:
  \<^verbatim>\<open>/\bbody\s*[:=]\s*$/\<close>,
  \<^verbatim>\<open>/\brequest[-_ ]?body\s*[:=]\s*$/\<close>,
  \<^verbatim>\<open>/\bbody\s*\/\s*data\s*[:=]\s*$/\<close>,
  \<^verbatim>\<open>/\brequest[-_ ]?body\s*\/\s*data\s*[:=]\s*$/\<close>,
  \<^verbatim>\<open>/\bpayload\s*[:=]\s*$/\<close>,
  \<^verbatim>\<open>/\bdata\s*[:=]\s*$/\<close>,
  \<^verbatim>\<open>/\bpost[-_ ]?data\s*[:=]\s*$/\<close>,
  \<^verbatim>\<open>/\bparams\s*[:=]\s*$/\<close>,
  \<^verbatim>\<open>/\bDATA\s+in\s+\w+\s*$/\<close>,
  \<^verbatim>\<open>/\b--data(?:-raw|-binary)?\s+['"]?$/\<close>,
  \<^verbatim>\<open>/\brequest\s*[:=]\s*$/\<close>.
\<close>

definition BODY_MARKERS :: "rx list" where
  "BODY_MARKERS =
     [seqs [WordB, lit ''body'', ws, colon_or_eq, ws, Eol],
      seqs [WordB, lit ''request'', sep3, lit ''body'', ws, colon_or_eq, ws, Eol],
      seqs [WordB, lit ''body'', ws, Chr CHR ''/'', ws, lit ''data'', ws, colon_or_eq, ws, Eol],
      seqs [WordB, lit ''request'', sep3, lit ''body'', ws, Chr CHR ''/'', ws, lit ''data'', ws,
            colon_or_eq, ws, Eol],
      seqs [WordB, lit ''payload'', ws, colon_or_eq, ws, Eol],
      seqs [WordB, lit ''data'', ws, colon_or_eq, ws, Eol],
      seqs [WordB, lit ''post'', sep3, lit ''data'', ws, colon_or_eq, ws, Eol],
      seqs [WordB, lit ''params'', ws, colon_or_eq, ws, Eol],
      seqs [WordB, lit ''DATA'', ws1, lit ''in'', ws1, Plus (Cls [CWord]), ws, Eol],
      seqs [WordB, lit ''--data'', Opt (Alt (lit ''-raw'') (lit ''-binary'')), ws1,
            Opt (Cls [CChar sq, CChar dq]), Eol],
      seqs [WordB, lit ''request'', ws, colon_or_eq, ws, Eol]]"

text \<open>
  \<open>HEADER_MARKERS\<close>, all with the flag \<open>i\<close>:
  \<^verbatim>\<open>/\bheaders?\s*[:=]\s*$/\<close>,
  \<^verbatim>\<open>/\brequest[-_ ]?headers?\s*[:=]\s*$/\<close>,
  \<^verbatim>\<open>/\bresponse[-_ ]?headers?\s*[:=]\s*$/\<close>,
  \<^verbatim>\<open>/\bbaseOptions\.headers\s*[:=]\s*$/\<close>.
\<close>

definition HEADER_MARKERS :: "rx list" where
  "HEADER_MARKERS =
     [seqs [WordB, lit ''header'', Opt (Chr CHR ''s''), ws, colon_or_eq, ws, Eol],
      seqs [WordB, lit ''request'', sep3, lit ''header'', Opt (Chr CHR ''s''), ws, colon_or_eq, ws, Eol],
      seqs [WordB, lit ''response'', sep3, lit ''header'', Opt (Chr CHR ''s''), ws, colon_or_eq, ws, Eol],
      seqs [WordB, lit ''baseOptions.headers'', ws, colon_or_eq, ws, Eol]]"

text \<open>
  \<open>META_MARKERS\<close>, all with the flag \<open>i\<close>:
  \<^verbatim>\<open>/\bconfig\s*[:=]\s*$/\<close>,
  \<^verbatim>\<open>/\boptions\s*[:=]\s*$/\<close>,
  \<^verbatim>\<open>/\bresponse\s*[:=]\s*$/\<close>,
  \<^verbatim>\<open>/\bextra\s*[:=]\s*$/\<close>,
  \<^verbatim>\<open>/\bquery[-_ ]?parameters?\s*[:=]\s*$/\<close>.
\<close>

definition META_MARKERS :: "rx list" where
  "META_MARKERS =
     [seqs [WordB, lit ''config'', ws, colon_or_eq, ws, Eol],
      seqs [WordB, lit ''options'', ws, colon_or_eq, ws, Eol],
      seqs [WordB, lit ''response'', ws, colon_or_eq, ws, Eol],
      seqs [WordB, lit ''extra'', ws, colon_or_eq, ws, Eol],
      seqs [WordB, lit ''query'', sep3, lit ''parameter'', Opt (Chr CHR ''s''), ws, colon_or_eq, ws, Eol]]"

definition HEADER_KEYS :: "string list" where
  "HEADER_KEYS =
     [''authorization'', ''content-type'', ''accept'', ''user-agent'',
      ''cache-control'', ''x-requested-with'', ''cookie'', ''set-cookie'',
      ''host'', ''connection'', ''accept-encoding'', ''accept-language'',
      ''content-length'', ''origin'', ''referer'', ''x-csrf-token'',
      ''x-xsrf-token'', ''x-forwarded-for'', ''x-forwarded-proto'',
      ''pragma'', ''expires'', ''etag'', ''if-none-match'', ''if-modified-since'',
      ''access-control-allow-origin'', ''access-control-allow-methods'',
      ''access-control-allow-headers'', ''vary'', ''transfer-encoding'']"

definition META_KEYS :: "string list" where
  "META_KEYS =
     [''statuscode'', ''statusmessage'', ''responsetype'', ''extra'',
      ''connecttimeout'', ''receivetimeout'', ''sendtimeout'',
      ''followredirects'', ''maxredirects'', ''baseurl'',
      ''validatestatus'', ''httpclientadapter'', ''listformat'',
      ''contenttype'', ''responseheaders'', ''isredirect'']"

text \<open>
  \<open>s.toLowerCase()\<close>, character by character: the ASCII capitals and the capitals of the
  Latin-1 block move down by 32.
\<close>

definition lower_char :: "char \<Rightarrow> char" where
  "lower_char c =
     (let n = (of_char c :: nat)
      in if (65 \<le> n \<and> n \<le> 90) \<or> (192 \<le> n \<and> n \<le> 222 \<and> n \<noteq> 215) then char_of (n + 32) else c)"

definition toLowerCase :: "string \<Rightarrow> string" where
  "toLowerCase s = map lower_char s"

text \<open>\<open>s.trimEnd()\<close>.\<close>

definition trimEnd :: "string \<Rightarrow> string" where
  "trimEnd s = rev (dropWhile is_space (rev s))"

text \<open>\<^verbatim>\<open>/(?:["']?)([\w][\w\-.]*)(?:["']?)\s*:/g\<close>\<close>

definition RAW_KEY :: rx where
  "RAW_KEY =
     seqs [Opt (Cls [CChar dq, CChar sq]),
           Grp (Seq (Cls [CWord]) (Star (Cls [CWord, CChar CHR ''-'', CChar CHR ''.'']))),
           Opt (Cls [CChar dq, CChar sq]), ws, Chr CHR '':'']"

text \<open>
  The loop \<open>while ((m = re.exec(block)) !== null)\<close> of \<open>extractRawKeys\<close>: each search
  starts where the last match ended (\<open>lastIndex\<close>) and contributes \<open>m[1].toLowerCase()\<close>.
  A match of \<open>RAW_KEY\<close> is never empty, so \<open>lastIndex\<close> always advances and the test on
  the lengths always succeeds (lemmas \<open>RAW_KEY_consumes\<close> and \<open>exec_keys_loop\<close> below);
  it is there for the termination proof.
\<close>

function exec_keys :: "nat \<Rightarrow> char option \<Rightarrow> string \<Rightarrow> string list" where
  "exec_keys i p s =
     (case search False RAW_KEY i p s of
        None \<Rightarrow> []
      | Some m \<Rightarrow>
          toLowerCase (group1 m) #
          (if length (rest (snd m)) < length s
           then exec_keys (pos (snd m)) (prev (snd m)) (rest (snd m)) else []))"
  by pat_completeness auto
termination
  by (relation "measure (\<lambda>(i, p, s). length s)") auto

definition extractRawKeys :: "string \<Rightarrow> string list" where
  "extractRawKeys blk = exec_keys 0 None blk"

definition headerCount :: "string list \<Rightarrow> nat" where
  "headerCount keys = length (filter (\<lambda>k. k \<in> set HEADER_KEYS) keys)"

definition metaCount :: "string list \<Rightarrow> nat" where
  "metaCount keys = length (filter (\<lambda>k. k \<in> set META_KEYS) keys)"

definition any_marker :: "rx list \<Rightarrow> string \<Rightarrow> bool" where
  "any_marker res preceding = list_ex (\<lambda>re. rx_test True re preceding) res"

text \<open>\<open>reasons.join(', ')\<close>.\<close>

fun join_comma :: "string list \<Rightarrow> string" where
  "join_comma [] = []"
| "join_comma [r] = r"
| "join_comma (r # rs) = r @ '', '' @ join_comma rs"

text \<open>
  \<open>scoreBlock\<close>. The two quotients are compared without floating point:
  \<open>headerCount / total > 0.5\<close> is \<open>2 * headerCount > total\<close>, and
  \<open>metaCount / total > 0.3\<close> is \<open>10 * metaCount > 3 * total\<close>, because a quotient of two
  array lengths that differs from \<open>1/2\<close> or \<open>3/10\<close> at all differs by far more than the
  rounding of a double.
\<close>

definition scoreBlock :: "TextBlock \<Rightarrow> ScoredBlock" where
  "scoreBlock b =
     (let preceding = trimEnd (stripLogPrefixes (precedingText b));
          keys = extractRawKeys (content b)
      in if length keys = 0 then \<lparr>block = b, score = - 100, reason = ''empty block''\<rparr>
         else
           let (s1, r1) = (if any_marker BODY_MARKERS preceding
                           then (50, [''body marker'']) else (0::int, []));
               (s2, r2) = (if any_marker HEADER_MARKERS preceding
                           then (s1 - 50, r1 @ [''header marker'']) else (s1, r1));
               (s3, r3) = (if any_marker META_MARKERS preceding
                           then (s2 - 30, r2 @ [''metadata marker'']) else (s2, r2));
               hc = headerCount keys;
               mc = metaCount keys;
               total = length keys;
               (s4, r4) = (if total > 0 \<and> 2 * hc > total
                           then (s3 - 40, r3 @ [''majority header keys''])
                           else if hc = 0 \<and> mc = 0
                           then (s3 + 10, r3 @ [''no header/meta keys''])
                           else (s3, r3));
               (s5, r5) = (if total > 0 \<and> 10 * mc > 3 * total
                           then (s4 - 30, r4 @ [''significant meta keys'']) else (s4, r4));
               (s6, r6) = (if total \<ge> 3 then (s5 + 5, r5 @ [''multi-key'']) else (s5, r5))
           in \<lparr>block = b, score = s6,
               reason = (if join_comma r6 = [] then ''default'' else join_comma r6)\<rparr>)"

text \<open>
  \<open>LOGFMT_BODY_PATTERNS\<close>, all with the flag \<open>i\<close>. For a label \<open>L\<close> the three shapes
  are \<^verbatim>\<open>/\bL\s*=\s*"(\{[^"]*\})"/\<close>, \<^verbatim>\<open>/\bL\s*=\s*'(\{[^']*\})'/\<close> and
  \<^verbatim>\<open>/\bL\s*=\s*(\{[^\n]*\})/\<close>.
\<close>

definition kv_quoted :: "char \<Rightarrow> rx \<Rightarrow> rx" where
  "kv_quoted q label =
     seqs [WordB, label, ws, Chr CHR ''='', ws, Chr q,
           Grp (seqs [Chr CHR ''{'', Star (NCls [CChar q]), Chr CHR ''}'']), Chr q]"

definition kv_bare :: "rx \<Rightarrow> rx" where
  "kv_bare label =
     seqs [WordB, label, ws, Chr CHR ''='', ws,
           Grp (seqs [Chr CHR ''{'', Star (NCls [CChar nl]), Chr CHR ''}''])]"

definition LOGFMT_BODY_PATTERNS :: "rx list" where
  "LOGFMT_BODY_PATTERNS =
     [kv_quoted dq (seqs [lit ''request'', sep2, lit ''body'']),
      kv_quoted sq (seqs [lit ''request'', sep2, lit ''body'']),
      kv_bare (seqs [lit ''request'', sep2, lit ''body'']),
      kv_quoted dq (lit ''body''),
      kv_quoted sq (lit ''body''),
      kv_bare (lit ''body''),
      kv_quoted dq (lit ''payload''),
      kv_quoted sq (lit ''payload''),
      kv_quoted dq (lit ''data''),
      kv_quoted sq (lit ''data''),
      kv_quoted dq (seqs [lit ''post'', sep2, lit ''data'']),
      kv_quoted sq (seqs [lit ''post'', sep2, lit ''data''])]"

fun first_group :: "rx list \<Rightarrow> string \<Rightarrow> string option" where
  "first_group [] text = None"
| "first_group (pattern # ps) text =
     (case rx_match True pattern text of
        Some m \<Rightarrow> Some (group1 m)
      | None \<Rightarrow> first_group ps text)"

definition extractBodyFromKeyValue :: "string \<Rightarrow> string option" where
  "extractBodyFromKeyValue text = first_group LOGFMT_BODY_PATTERNS text"

text \<open>
  What the language raises where the source reads a property of \<open>undefined\<close> or reduces an
  empty array without an initial value.
\<close>

datatype error = TypeError

text \<open>The callback of \<open>tied.reduce\<close>.\<close>

definition fewer_headers :: "ScoredBlock \<Rightarrow> ScoredBlock \<Rightarrow> ScoredBlock" where
  "fewer_headers prv cur =
     (let prevH = headerCount (extractRawKeys (content (block prv)));
          currH = headerCount (extractRawKeys (content (block cur)))
      in if currH < prevH then cur else prv)"

text \<open>
  \<open>extractBody\<close>; \<open>null\<close> is \<open>None\<close>. \<open>Array.prototype.sort\<close> is stable, and so is
  \<^const>\<open>sort_key\<close>; sorting by the negated score is sorting with the comparator
  \<open>(a, b) => b.score - a.score\<close>. \<open>if (kvBody)\<close> takes a non-empty string only.
\<close>

definition extractBody :: "string \<Rightarrow> error + string option" where
  "extractBody text =
     (let kvBody = extractBodyFromKeyValue text
      in if kvBody \<noteq> None \<and> kvBody \<noteq> Some [] then Inr kvBody
         else
           let blks = extractBalancedBlocks text
           in if length blks = 0 then Inr None
              else if length blks = 1 then Inr (Some (content (blks ! 0)))
              else
                let scored = sort_key (\<lambda>s. - score s) (map scoreBlock blks)
                in (case scored of
                      s0 # s1 # _ \<Rightarrow>
                        if score s0 > score s1 then Inr (Some (content (block s0)))
                        else
                          let topScore = score s0;
                              tied = filter (\<lambda>s. score s = topScore) scored
                          in (case tied of
                                [] \<Rightarrow> Inl TypeError
                              | t # ts \<Rightarrow> Inr (Some (content (block (foldl fewer_headers t ts)))))
                    | _ \<Rightarrow> Inl TypeError))"


section \<open>URL extraction: \<open>extractUrl\<close>\<close>

abbreviation http_url_head :: rx where
  "http_url_head \<equiv> seqs [lit ''http'', Opt (Chr CHR ''s''), lit ''://'']"

text \<open>\<^verbatim>\<open>/\b(?:FULL\s+URL|REQUEST\s+URL|ENDPOINT)\s*:\s*(https?:\/\/\S+)/i\<close>\<close>

definition LABELED_URL :: rx where
  "LABELED_URL =
     seqs [WordB,
           alts [seqs [lit ''FULL'', ws1, lit ''URL''], seqs [lit ''REQUEST'', ws1, lit ''URL''],
                 lit ''ENDPOINT''],
           ws, Chr CHR '':'', ws, Grp (Seq http_url_head (Plus nonspace))]"

text \<open>\<^verbatim>\<open>/\bBASE\s+URL\s*:\s*(https?:\/\/\S+)/i\<close>\<close>

definition BASE_URL :: rx where
  "BASE_URL =
     seqs [WordB, lit ''BASE'', ws1, lit ''URL'', ws, Chr CHR '':'', ws,
           Grp (Seq http_url_head (Plus nonspace))]"

text \<open>\<^verbatim>\<open>/\bPATH\s*:\s*(\/\S*)/i\<close>\<close>

definition PATH_LABEL :: rx where
  "PATH_LABEL = seqs [WordB, lit ''PATH'', ws, Chr CHR '':'', ws, Grp (Seq (Chr CHR ''/'') (Star nonspace))]"

text \<open>\<^verbatim>\<open>/https?:\/\/[a-zA-Z0-9\-._~:/?#\[\]@!$&'()*+,;=%]+/\<close>\<close>

definition FULL_URL :: rx where
  "FULL_URL =
     Seq http_url_head
       (Plus (Cls ([CRange CHR ''a'' CHR ''z'', CRange CHR ''A'' CHR ''Z'', CRange CHR ''0'' CHR ''9''] @
                   map CChar (''-._~:/?#[]@!$&'' @ [sq] @ ''()*+,;=%''))))"

text \<open>\<^verbatim>\<open>/\b(?:GET|POST|PUT|PATCH|DELETE|HEAD|OPTIONS)\s+(\/\S+)\s+HTTP/i\<close>\<close>

definition REQUEST_LINE :: rx where
  "REQUEST_LINE =
     seqs [WordB,
           alts [lit ''GET'', lit ''POST'', lit ''PUT'', lit ''PATCH'', lit ''DELETE'', lit ''HEAD'',
                 lit ''OPTIONS''],
           ws1, Grp (Seq (Chr CHR ''/'') (Plus nonspace)), ws1, lit ''HTTP'']"

text \<open>\<^verbatim>\<open>/\b(?:host|server_name|server)\s*[:=]\s*"?([a-zA-Z0-9\-._]+(?::\d+)?)"?/i\<close>\<close>

definition HOST_FIELD :: rx where
  "HOST_FIELD =
     seqs [WordB, alts [lit ''host'', lit ''server_name'', lit ''server''], ws, colon_or_eq, ws,
           Opt (Chr dq),
           Grp (Seq (Plus (Cls [CRange CHR ''a'' CHR ''z'', CRange CHR ''A'' CHR ''Z'',
                                CRange CHR ''0'' CHR ''9'', CChar CHR ''-'', CChar CHR ''.'',
                                CChar CHR ''_'']))
                    (Opt (Seq (Chr CHR '':'') (Plus digit)))),
           Opt (Chr dq)]"

text \<open>\<^verbatim>\<open>/:\d*80$/\<close>\<close>

definition PORT_80 :: rx where
  "PORT_80 = seqs [Chr CHR '':'', Star digit, lit ''80'', Eol]"

text \<open>\<^verbatim>\<open>/[,;'")\]}>]+$/\<close> and \<^verbatim>\<open>/[,;'")\]}>\/]+$/\<close>\<close>

definition TRAILING :: rx where
  "TRAILING = Seq (Plus (Cls (map CChar ('',;'' @ [sq, dq] @ '')]}>'')))) Eol"

definition TRAILING_SLASH :: rx where
  "TRAILING_SLASH = Seq (Plus (Cls (map CChar ('',;'' @ [sq, dq] @ '')]}>/'')))) Eol"

definition extractUrl :: "string \<Rightarrow> string option" where
  "extractUrl text =
     (case rx_match True LABELED_URL text of
        Some labeledMatch \<Rightarrow> Some (replace_first False TRAILING (group1 labeledMatch))
      | None \<Rightarrow>
     (case rx_match True BASE_URL text of
        Some baseMatch \<Rightarrow>
          (let base = replace_first False TRAILING_SLASH (group1 baseMatch);
               path = (case rx_match True PATH_LABEL text of
                         Some pathMatch \<Rightarrow> replace_first False TRAILING (group1 pathMatch)
                       | None \<Rightarrow> [])
           in Some (base @ path))
      | None \<Rightarrow>
     (case rx_match False FULL_URL text of
        Some fullMatch \<Rightarrow> Some (replace_first False TRAILING (whole text fullMatch))
      | None \<Rightarrow>
     (case (rx_match True REQUEST_LINE text, rx_match True HOST_FIELD text) of
        (Some pathMatch, Some hostMatch) \<Rightarrow>
          (let path = group1 pathMatch;
               host = group1 hostMatch;
               scheme = (if rx_test False PORT_80 host then ''http'' else ''https'')
           in Some (scheme @ ''://'' @ host @ path))
      | (None, Some hostMatch) \<Rightarrow> Some (''https://'' @ group1 hostMatch)
      | (_, None) \<Rightarrow> None))))"

section \<open>Body unwrapping: \<open>unwrapBodyIfNeeded\<close>\<close>

text \<open>
  A parsed JSON value. An object is the list of its own properties in the order of
  \<open>Object.keys\<close>; the numbers are left abstract.
\<close>

datatype 'n json =
    JNull
  | JBool bool
  | JNum 'n
  | JStr string
  | JArr "'n json list"
  | JObj "(string \<times> 'n json) list"

definition CONFIG_INDICATORS :: "string list" where
  "CONFIG_INDICATORS = [''method'', ''url'', ''baseurl'', ''headers'', ''timeout'', ''responsetype'']"

definition BODY_KEYS :: "string list" where
  "BODY_KEYS = [''body'', ''data'', ''payload'', ''requestbody'', ''request_body'']"

text \<open>\<open>INDICATORS.filter(ci => lowerKeys.includes(ci)).length\<close>\<close>

definition indicator_count :: "string list \<Rightarrow> (string \<times> 'n json) list \<Rightarrow> nat" where
  "indicator_count indicators obj =
     (let keys = map fst obj;
          lowerKeys = map toLowerCase keys
      in length (filter (\<lambda>ci. ci \<in> set lowerKeys) indicators))"

text \<open>\<open>typeof v === 'object' && v !== null\<close>\<close>

fun is_nonnull_object :: "'n json \<Rightarrow> bool" where
  "is_nonnull_object (JArr _) = True"
| "is_nonnull_object (JObj _) = True"
| "is_nonnull_object _ = False"

text \<open>\<open>keys.find(k => k.toLowerCase() === bk)\<close>\<close>

definition real_key :: "(string \<times> 'n json) list \<Rightarrow> string \<Rightarrow> string option" where
  "real_key obj bk = find (\<lambda>k. toLowerCase k = bk) (map fst obj)"

text \<open>
  The body of the loop over \<open>BODY_KEYS\<close>: the value to return for the name \<open>bk\<close>, when
  there is one. \<open>realKey\<close> is truthy when it is found and not empty.
\<close>

definition nested_body :: "(string \<times> 'n json) list \<Rightarrow> string \<Rightarrow> 'n json option" where
  "nested_body obj bk =
     (case real_key obj bk of
        None \<Rightarrow> None
      | Some realKey \<Rightarrow>
          (case map_of obj realKey of
             None \<Rightarrow> None
           | Some v \<Rightarrow> if realKey \<noteq> [] \<and> is_nonnull_object v then Some v else None))"

fun first_nested :: "(string \<times> 'n json) list \<Rightarrow> string list \<Rightarrow> 'n json option" where
  "first_nested obj [] = None"
| "first_nested obj (bk # bks) =
     (case nested_body obj bk of
        Some v \<Rightarrow> Some v
      | None \<Rightarrow> first_nested obj bks)"

definition unwrapBodyIfNeeded :: "'n json \<Rightarrow> 'n json" where
  "unwrapBodyIfNeeded parsed =
     (case parsed of
        JObj obj \<Rightarrow>
          (let hasConfigShape = (indicator_count CONFIG_INDICATORS obj \<ge> 2)
           in if \<not> hasConfigShape then parsed
              else (case first_nested obj BODY_KEYS of Some v \<Rightarrow> v | None \<Rightarrow> parsed))
      | _ \<Rightarrow> parsed)"

section \<open>Body normalization: \<open>normalizeBody\<close>\<close>







section \<open>Notions used to state the properties\<close>

text \<open>
  Quoted regions, as the block scanner reads them: a region opens at a single or double
  quote met outside any region and closes at the next occurrence of the same quote; inside
  a region a backslash takes the following character with it. \<open>unquoted m s\<close> keeps the
  characters of \<open>s\<close> that lie outside every quoted region, the quotes themselves left out.
\<close>

datatype qmode = Out | In char | Esc char

fun qstep :: "qmode \<Rightarrow> char \<Rightarrow> qmode" where
  "qstep Out c = (if c = dq \<or> c = sq then In c else Out)"
| "qstep (In q) c = (if c = bsl then Esc q else if c = q then Out else In q)"
| "qstep (Esc q) c = In q"

fun unquoted :: "qmode \<Rightarrow> string \<Rightarrow> string" where
  "unquoted m [] = []"
| "unquoted m (c # cs) =
     (if m = Out \<and> c \<noteq> dq \<and> c \<noteq> sq then c # unquoted (qstep m c) cs
      else unquoted (qstep m c) cs)"

definition opens :: "string \<Rightarrow> nat" where
  "opens s = count_list (unquoted Out s) CHR ''{''"

definition closes :: "string \<Rightarrow> nat" where
  "closes s = count_list (unquoted Out s) CHR ''}''"

text \<open>
  The indicator names as the specification spells them, for comparison with
  \<^const>\<open>CONFIG_INDICATORS\<close>.
\<close>

definition SPEC_INDICATORS :: "string list" where
  "SPEC_INDICATORS = [''method'', ''url'', ''base-url'', ''headers'', ''timeout'', ''response-type'']"


text \<open>
  For the tie-break of \<open>extractBody\<close>: the highest score of a list of scored blocks, the
  blocks that reach it (in the order of the list), and the number of header-vocabulary keys
  of a scored block.
\<close>

definition top_score :: "ScoredBlock list \<Rightarrow> int" where
  "top_score ss = Max (set (map score ss))"

definition tied_blocks :: "ScoredBlock list \<Rightarrow> ScoredBlock list" where
  "tied_blocks ss = filter (\<lambda>s. score s = top_score ss) ss"

definition header_keys_in :: "ScoredBlock \<Rightarrow> nat" where
  "header_keys_in s = headerCount (extractRawKeys (content (block s)))"

text \<open>The top-scored blocks of a text, in scan order.\<close>

definition tied_in :: "string \<Rightarrow> ScoredBlock list" where
  "tied_in text = tied_blocks (map scoreBlock (extractBalancedBlocks text))"

text \<open>
  A line begins with a recognized prefix when one of the six patterns of
  \<open>stripLogPrefixes\<close> matches it. Each pattern starts with \<open>^\<close>, so a match can only begin
  at the start of the line.
\<close>

definition recognized_prefix :: "string \<Rightarrow> bool" where
  "recognized_prefix line =
     (rx_test True FLUTTER_PREFIX line \<or> rx_test False LOGCAT_PREFIX line \<or>
      rx_test False LARAVEL_PREFIX line \<or> rx_test False ISO_PREFIX line \<or>
      rx_test False NEST_PREFIX line \<or> rx_test False PROMPT_PREFIX line)"

text \<open>
  A host ends in a port whose digits end in \<open>80\<close>: it is some text, a colon, any number
  of digits, and \<open>80\<close>.
\<close>

definition port_ends_80 :: "string \<Rightarrow> bool" where
  "port_ends_80 host = (\<exists>pre ds. host = pre @ CHR '':'' # ds @ ''80'' \<and> (\<forall>d\<in>set ds. is_digit d))"

text \<open>\<open>s\<close> ends with the literal text \<open>t\<close>.\<close>

definition ends_with :: "string \<Rightarrow> string \<Rightarrow> bool" where
  "ends_with s t = (length t \<le> length s \<and> drop (length s - length t) s = t)"

text \<open>
  The invariant of the scanner's loop. \<open>pos_prefixes sg\<close>: every non-empty prefix of
  \<open>sg\<close> has more opening than closing braces outside quoted regions. \<open>open_seg text i bs
  d m\<close>: the first \<open>i\<close> characters of \<open>text\<close> end with a segment that starts at index
  \<open>bs\<close> with an opening brace, is read in quote mode \<open>m\<close> at its end, holds \<open>d\<close> more
  opening than closing braces, and has only such prefixes. \<open>well_formed_block\<close> is what
  the scanner promises of a block it returns.
\<close>

definition pos_prefixes :: "string \<Rightarrow> bool" where
  "pos_prefixes sg = (\<forall>n. 0 < n \<and> n \<le> length sg \<longrightarrow> closes (take n sg) < opens (take n sg))"

definition brace_delta :: "qmode \<Rightarrow> char \<Rightarrow> int" where
  "brace_delta m c =
     (if m = Out \<and> c = CHR ''{'' then 1 else if m = Out \<and> c = CHR ''}'' then - 1 else 0)"

definition open_seg :: "string \<Rightarrow> nat \<Rightarrow> nat \<Rightarrow> int \<Rightarrow> qmode \<Rightarrow> bool" where
  "open_seg text i bs d m =
     (\<exists>pre sg. take i text = pre @ sg \<and> length pre = bs \<and> sg \<noteq> [] \<and> hd sg = CHR ''{'' \<and>
        foldl qstep Out sg = m \<and> int (opens sg) = int (closes sg) + d \<and> pos_prefixes sg)"

definition mode_of :: "scan_state \<Rightarrow> qmode" where
  "mode_of st = (if inString st then In (hd (stringChar st)) else Out)"

definition well_formed_block :: "string \<Rightarrow> TextBlock \<Rightarrow> bool" where
  "well_formed_block text b =
     (content b \<noteq> [] \<and> hd (content b) = CHR ''{'' \<and> last (content b) = CHR ''}'' \<and>
      opens (content b) = closes (content b) \<and>
      (\<forall>n. 0 < n \<and> n < length (content b) \<longrightarrow>
         closes (take n (content b)) < opens (take n (content b))) \<and>
      0 \<le> startIndex b \<and> startIndex b < endIndex b \<and> endIndex b < int (length text) \<and>
      content b = substring text (startIndex b) (endIndex b + 1))"

definition scan_inv :: "string \<Rightarrow> nat \<Rightarrow> scan_state \<Rightarrow> bool" where
  "scan_inv text i st =
     ((\<forall>b\<in>set (blocks st). well_formed_block text b) \<and>
      0 \<le> depth st \<and>
      (depth st = 0 \<longrightarrow> blockStart st = - 1) \<and>
      (inString st \<longrightarrow> (\<exists>q. stringChar st = [q])) \<and>
      (0 < depth st \<and> i \<le> length text \<longrightarrow>
         (\<exists>bs. blockStart st = int bs \<and> open_seg text i bs (depth st) (mode_of st))))"

text \<open>
  Two scanner states that agree up to a shift by one index: \<open>s1\<close> belongs to a text with
  one more character at index \<open>len\<close> than the text of \<open>s2\<close>, which is at index \<open>j\<close>.
\<close>

definition shifted :: "nat \<Rightarrow> nat \<Rightarrow> scan_state \<Rightarrow> scan_state \<Rightarrow> bool" where
  "shifted len j s1 s2 =
     (depth s1 = depth s2 \<and> 0 \<le> depth s2 \<and> inString s1 = inString s2 \<and>
      stringChar s1 = stringChar s2 \<and>
      map content (blocks s1) = map content (blocks s2) \<and>
      (0 < depth s2 \<longrightarrow>
         int len \<le> blockStart s2 \<and> blockStart s2 < int j \<and> blockStart s1 = blockStart s2 + 1))"

text \<open>
  The nesting depth of a text as the claim about unmatched braces understands it: braces
  are counted outside quoted regions, an opening brace raises the depth by one, a closing
  brace lowers it by one, and a closing brace met at depth 0 is ignored.
\<close>

definition level_step :: "int \<Rightarrow> char \<Rightarrow> int" where
  "level_step d c =
     (if c = CHR ''{'' then d + 1 else if c = CHR ''}'' then max 0 (d - 1) else d)"

definition level :: "string \<Rightarrow> int" where
  "level s = foldl level_step 0 (unquoted Out s)"

text \<open>
  The scanner at index \<open>i\<close> agrees with the text read so far. The index can pass the end
  of the text by one, when the last character is a backslash inside a quoted region.
\<close>

definition tracks :: "string \<Rightarrow> nat \<Rightarrow> scan_state \<Rightarrow> bool" where
  "tracks text i st =
     (depth st = level (take i text) \<and>
      (inString st \<longrightarrow> (\<exists>q. stringChar st = [q])) \<and>
      (if i \<le> length text then mode_of st = foldl qstep Out (take i text)
       else inString st \<and> foldl qstep Out text \<noteq> Out))"

text \<open>
  The scanner is \<open>k\<close> characters into a block \<open>blk\<close> that starts at index \<open>bs\<close>.
\<close>

definition inside :: "nat \<Rightarrow> string \<Rightarrow> nat \<Rightarrow> scan_state \<Rightarrow> bool" where
  "inside bs blk k st =
     (blockStart st = int bs \<and>
      depth st = int (opens (take k blk)) - int (closes (take k blk)) \<and>
      mode_of st = foldl qstep Out (take k blk) \<and>
      (inString st \<longrightarrow> (\<exists>q. stringChar st = [q])))"

text \<open>
  A well-formed block: a text that starts with an opening brace and whose braces, counted
  outside quoted regions, balance at its last character and not before.
\<close>

definition balanced_block :: "string \<Rightarrow> bool" where
  "balanced_block blk =
     (blk \<noteq> [] \<and> hd blk = CHR ''{'' \<and> opens blk = closes blk \<and>
      (\<forall>n. 0 < n \<and> n < length blk \<longrightarrow> closes (take n blk) < opens (take n blk)))"

text \<open>The block the scanner reports for the text \<open>blk\<close> found right after \<open>pre\<close>.\<close>

definition block_at :: "string \<Rightarrow> string \<Rightarrow> TextBlock" where
  "block_at pre blk =
     \<lparr>content = blk, startIndex = int (length pre),
      endIndex = int (length pre + length blk) - 1,
      precedingText = drop (length pre - 300) pre\<rparr>"











section \<open>Evaluating the character classes\<close>

text \<open>
  The classes are defined by character codes. For evaluation each is also given by the
  bits of the character, checked against the definition on all 256 characters.
\<close>

lemma is_digit_code [code]:
  "is_digit (Char b0 b1 b2 b3 b4 b5 b6 b7) =
     (b4 \<and> b5 \<and> \<not> b6 \<and> \<not> b7 \<and> (\<not> b3 \<or> (\<not> b2 \<and> \<not> b1)))"
  by (cases b0; cases b1; cases b2; cases b3; cases b4; cases b5; cases b6; cases b7;
      simp add: is_digit_def)

lemma is_upper_code [code]:
  "is_upper (Char b0 b1 b2 b3 b4 b5 b6 b7) =
     (\<not> b5 \<and> b6 \<and> \<not> b7 \<and> (b0 \<or> b1 \<or> b2 \<or> b3 \<or> b4) \<and>
      \<not> (b4 \<and> b3 \<and> (b2 \<or> (b1 \<and> b0))))"
  by (cases b0; cases b1; cases b2; cases b3; cases b4; cases b5; cases b6; cases b7;
      simp add: is_upper_def)

lemma is_lower_code [code]:
  "is_lower (Char b0 b1 b2 b3 b4 b5 b6 b7) =
     (b5 \<and> b6 \<and> \<not> b7 \<and> (b0 \<or> b1 \<or> b2 \<or> b3 \<or> b4) \<and>
      \<not> (b4 \<and> b3 \<and> (b2 \<or> (b1 \<and> b0))))"
  by (cases b0; cases b1; cases b2; cases b3; cases b4; cases b5; cases b6; cases b7;
      simp add: is_lower_def)

lemma is_space_code [code]:
  "is_space (Char b0 b1 b2 b3 b4 b5 b6 b7) =
     ((\<not> b4 \<and> \<not> b5 \<and> \<not> b6 \<and> \<not> b7 \<and> b3 \<and> ((\<not> b2 \<and> (b1 \<or> b0)) \<or> (b2 \<and> \<not> b1))) \<or>
      (\<not> b0 \<and> \<not> b1 \<and> \<not> b2 \<and> \<not> b3 \<and> \<not> b4 \<and> b5 \<and> \<not> b6))"
  by (cases b0; cases b1; cases b2; cases b3; cases b4; cases b5; cases b6; cases b7;
      simp add: is_space_def)

lemma ascii_upper_code [code]:
  "ascii_upper (Char b0 b1 b2 b3 b4 b5 b6 b7) =
     (if is_lower (Char b0 b1 b2 b3 b4 b5 b6 b7) then Char b0 b1 b2 b3 b4 False b6 b7
      else Char b0 b1 b2 b3 b4 b5 b6 b7)"
  by (cases b0; cases b1; cases b2; cases b3; cases b4; cases b5; cases b6; cases b7;
      simp add: ascii_upper_def is_lower_def char_of_def bit_Suc_0_iff)

lemma ascii_lower_code [code]:
  "ascii_lower (Char b0 b1 b2 b3 b4 b5 b6 b7) =
     (if is_upper (Char b0 b1 b2 b3 b4 b5 b6 b7) then Char b0 b1 b2 b3 b4 True b6 b7
      else Char b0 b1 b2 b3 b4 b5 b6 b7)"
  by (cases b0; cases b1; cases b2; cases b3; cases b4; cases b5; cases b6; cases b7;
      simp add: ascii_lower_def is_upper_def char_of_def bit_Suc_0_iff)

lemma lower_char_code [code]:
  "lower_char (Char b0 b1 b2 b3 b4 b5 b6 b7) =
     (if is_upper (Char b0 b1 b2 b3 b4 b5 b6 b7) \<or>
         (b7 \<and> b6 \<and> \<not> b5 \<and> \<not> (b0 \<and> b1 \<and> b2 \<and> b3 \<and> b4) \<and> \<not> (b0 \<and> b1 \<and> b2 \<and> \<not> b3 \<and> b4))
      then Char b0 b1 b2 b3 b4 True b6 b7
      else Char b0 b1 b2 b3 b4 b5 b6 b7)"
  by (cases b0; cases b1; cases b2; cases b3; cases b4; cases b5; cases b6; cases b7;
      simp add: lower_char_def is_upper_def char_of_def bit_Suc_0_iff)

section \<open>The block scanner and backslashes\<close>

declare scan_loop.simps [simp del]
declare replace_from.simps [simp del]
declare exec_keys.simps [simp del]
declare ms.simps(6) [simp del]

lemma scan_step_backslash:
  assumes "i < length text" and "text ! i = bsl"
  shows "scan_step text i st = (if inString st then i + 2 else i + 1, st)"
  using assms by (simp add: scan_step_def)

text \<open>
  C9, as amended. Where the scanner meets a backslash inside a quoted string, it skips the
  backslash and the character after it without examining either: the scan resumes two
  indices further in the same state, so an escaped brace or quote there changes neither the
  depth nor the string state. Outside a quoted string a backslash is an ordinary character:
  the scan resumes at the very next index, in the same state, and examines the character
  found there as it would any other.
\<close>

theorem backslash_escapes_inside_strings_only:
  assumes "i < length text" and "text ! i = bsl"
  shows "scan_step text i st = (if inString st then i + 2 else i + 1, st) \<and>
         scan_loop text i st = scan_loop text (if inString st then i + 2 else i + 1) st"
proof -
  have step: "scan_step text i st = (if inString st then i + 2 else i + 1, st)"
    using assms by (rule scan_step_backslash)
  have "scan_loop text i st = scan_loop text (fst (scan_step text i st)) (snd (scan_step text i st))"
    using assms(1) by (subst scan_loop.simps) simp
  with step show ?thesis by simp
qed

text \<open>
  The theorem at a backslash inside the string \<open>"\}"\<close> and at a backslash that opens the
  text \<open>\{\<close>.
\<close>

theorem backslash_escapes_inside_strings_only_witness:
  "(1::nat) < length [dq, bsl, CHR ''}'', dq] \<and> [dq, bsl, CHR ''}'', dq] ! 1 = bsl \<and>
   scan_loop [dq, bsl, CHR ''}'', dq] 1 (scan_init\<lparr>inString := True, stringChar := [dq]\<rparr>) =
   scan_loop [dq, bsl, CHR ''}'', dq] 3 (scan_init\<lparr>inString := True, stringChar := [dq]\<rparr>) \<and>
   (0::nat) < length [bsl, CHR ''{''] \<and> [bsl, CHR ''{''] ! 0 = bsl \<and>
   scan_loop [bsl, CHR ''{''] 0 scan_init = scan_loop [bsl, CHR ''{''] 1 scan_init"
  using backslash_escapes_inside_strings_only [of 1 "[dq, bsl, CHR ''}'', dq]"
          "scan_init\<lparr>inString := True, stringChar := [dq]\<rparr>"]
        backslash_escapes_inside_strings_only [of 0 "[bsl, CHR ''{'']" scan_init]
  by (simp add: scan_init_def numeral_3_eq_3)

text \<open>
  C9 as stated fails outside quoted strings: in \<open>\{\<close> the brace after the backslash
  raises the depth to 1, in \<open>\"\<close> the quote after the backslash opens a string, and
  \<open>\{a}\<close> yields the block \<open>{a}\<close>.
\<close>

theorem backslash_outside_string_counterexample:
  "depth (scan_loop [bsl, CHR ''{''] 0 scan_init) = 1 \<and>
   inString (scan_loop [bsl, dq] 0 scan_init) \<and>
   map content (extractBalancedBlocks (bsl # ''{a}'')) = [''{a}'']"
  by code_simp

section \<open>Body unwrapping\<close>

lemma toLowerCase_Nil_iff: "toLowerCase k = [] \<longleftrightarrow> k = []"
  by (simp add: toLowerCase_def)

lemma real_key_lower: "real_key obj bk = Some k \<Longrightarrow> toLowerCase k = bk"
  by (auto simp: real_key_def find_Some_iff)

lemma nested_body_Some_iff:
  assumes "bk \<noteq> []"
  shows "nested_body obj bk = Some v \<longleftrightarrow>
         (\<exists>k. real_key obj bk = Some k \<and> map_of obj k = Some v \<and> is_nonnull_object v)"
proof -
  have "k \<noteq> []" if "real_key obj bk = Some k" for k
    using real_key_lower [OF that] assms toLowerCase_Nil_iff by auto
  then show ?thesis
    by (auto simp: nested_body_def split: option.splits)
qed

lemma nested_body_None_iff:
  assumes "bk \<noteq> []"
  shows "nested_body obj bk = None \<longleftrightarrow>
         (\<forall>k v. real_key obj bk = Some k \<and> map_of obj k = Some v \<longrightarrow> \<not> is_nonnull_object v)"
proof -
  have "nested_body obj bk = None \<longleftrightarrow> (\<forall>v. nested_body obj bk \<noteq> Some v)"
    by auto
  also have "\<dots> \<longleftrightarrow> (\<forall>k v. real_key obj bk = Some k \<and> map_of obj k = Some v \<longrightarrow> \<not> is_nonnull_object v)"
    unfolding nested_body_Some_iff [OF assms] by blast
  finally show ?thesis .
qed

lemma first_nested_index:
  "i < length bks \<Longrightarrow> nested_body obj (bks ! i) = Some v \<Longrightarrow>
   (\<forall>j<i. nested_body obj (bks ! j) = None) \<Longrightarrow> first_nested obj bks = Some v"
proof (induction bks arbitrary: i)
  case Nil
  then show ?case by simp
next
  case (Cons bk bks)
  show ?case
  proof (cases i)
    case 0
    with Cons.prems show ?thesis by simp
  next
    case (Suc n)
    with Cons.prems have "nested_body obj bk = None" by auto
    moreover have "first_nested obj bks = Some v"
    proof (rule Cons.IH [of n])
      show "n < length bks" using Cons.prems Suc by simp
      show "nested_body obj (bks ! n) = Some v" using Cons.prems Suc by simp
      show "\<forall>j<n. nested_body obj (bks ! j) = None"
      proof (intro allI impI)
        fix j assume "j < n"
        then have "Suc j < i" using Suc by simp
        with Cons.prems(3) have "nested_body obj ((bk # bks) ! Suc j) = None" by blast
        then show "nested_body obj (bks ! j) = None" by simp
      qed
    qed
    ultimately show ?thesis by simp
  qed
qed

lemma first_nested_none:
  "(\<forall>bk\<in>set bks. nested_body obj bk = None) \<Longrightarrow> first_nested obj bks = None"
  by (induction bks) auto

lemma BODY_KEYS_nonempty: "bk \<in> set BODY_KEYS \<Longrightarrow> bk \<noteq> []"
  by (auto simp: BODY_KEYS_def)

text \<open>
  C7, as amended: the indicator names are \<open>baseurl\<close> and \<open>responsetype\<close>, without a
  hyphen. \<open>unwrapBodyIfNeeded\<close> returns \<open>null\<close>, booleans, numbers, strings and arrays
  unchanged. It returns an object unchanged when fewer than 2 of the indicators \<open>method\<close>,
  \<open>url\<close>, \<open>baseurl\<close>, \<open>headers\<close>, \<open>timeout\<close>, \<open>responsetype\<close> occur among its
  lower-cased keys. With 2 or more it goes through \<open>body\<close>, \<open>data\<close>, \<open>payload\<close>,
  \<open>requestbody\<close>, \<open>request_body\<close> in this order, looks each name up as the first key
  that equals it once lower-cased, and returns the first value so found that is a non-null
  object (in the sense of \<open>typeof\<close>); when no name yields one, it returns the object
  unchanged.
\<close>

theorem unwrapBodyIfNeeded_cases:
  "unwrapBodyIfNeeded JNull = JNull \<and>
   unwrapBodyIfNeeded (JBool b) = JBool b \<and>
   unwrapBodyIfNeeded (JNum n) = JNum n \<and>
   unwrapBodyIfNeeded (JStr s) = JStr s \<and>
   unwrapBodyIfNeeded (JArr xs) = JArr xs \<and>
   (indicator_count CONFIG_INDICATORS obj < 2 \<longrightarrow> unwrapBodyIfNeeded (JObj obj) = JObj obj) \<and>
   (2 \<le> indicator_count CONFIG_INDICATORS obj \<and> i < length BODY_KEYS \<and>
    real_key obj (BODY_KEYS ! i) = Some k \<and> map_of obj k = Some v \<and> is_nonnull_object v \<and>
    (\<forall>j<i. \<forall>k' v'. real_key obj (BODY_KEYS ! j) = Some k' \<and> map_of obj k' = Some v'
       \<longrightarrow> \<not> is_nonnull_object v')
    \<longrightarrow> unwrapBodyIfNeeded (JObj obj) = v) \<and>
   (2 \<le> indicator_count CONFIG_INDICATORS obj \<and>
    (\<forall>bk\<in>set BODY_KEYS. \<forall>k' v'. real_key obj bk = Some k' \<and> map_of obj k' = Some v'
       \<longrightarrow> \<not> is_nonnull_object v')
    \<longrightarrow> unwrapBodyIfNeeded (JObj obj) = JObj obj)"
proof -
  have few: "unwrapBodyIfNeeded (JObj obj) = JObj obj"
    if "indicator_count CONFIG_INDICATORS obj < 2"
    using that by (simp add: unwrapBodyIfNeeded_def)
  have found: "unwrapBodyIfNeeded (JObj obj) = v"
    if c: "2 \<le> indicator_count CONFIG_INDICATORS obj" and i: "i < length BODY_KEYS"
      and k: "real_key obj (BODY_KEYS ! i) = Some k" "map_of obj k = Some v" "is_nonnull_object v"
      and before: "\<forall>j<i. \<forall>k' v'. real_key obj (BODY_KEYS ! j) = Some k' \<and> map_of obj k' = Some v'
         \<longrightarrow> \<not> is_nonnull_object v'"
  proof -
    have "nested_body obj (BODY_KEYS ! i) = Some v"
      using k i by (simp add: nested_body_Some_iff BODY_KEYS_nonempty)
    moreover have "\<forall>j<i. nested_body obj (BODY_KEYS ! j) = None"
    proof (intro allI impI)
      fix j assume "j < i"
      then have "BODY_KEYS ! j \<in> set BODY_KEYS" using i by simp
      then have "BODY_KEYS ! j \<noteq> []" by (rule BODY_KEYS_nonempty)
      then show "nested_body obj (BODY_KEYS ! j) = None"
        using before \<open>j < i\<close> unfolding nested_body_None_iff [OF \<open>BODY_KEYS ! j \<noteq> []\<close>] by blast
    qed
    ultimately have "first_nested obj BODY_KEYS = Some v"
      using i by (intro first_nested_index)
    with c show ?thesis by (simp add: unwrapBodyIfNeeded_def)
  qed
  have none: "unwrapBodyIfNeeded (JObj obj) = JObj obj"
    if c: "2 \<le> indicator_count CONFIG_INDICATORS obj"
      and no: "\<forall>bk\<in>set BODY_KEYS. \<forall>k' v'. real_key obj bk = Some k' \<and> map_of obj k' = Some v'
         \<longrightarrow> \<not> is_nonnull_object v'"
  proof -
    have "\<forall>bk\<in>set BODY_KEYS. nested_body obj bk = None"
    proof
      fix bk assume bk: "bk \<in> set BODY_KEYS"
      then have "bk \<noteq> []" by (rule BODY_KEYS_nonempty)
      then show "nested_body obj bk = None"
        using no bk unfolding nested_body_None_iff [OF \<open>bk \<noteq> []\<close>] by blast
    qed
    then have "first_nested obj BODY_KEYS = None" by (rule first_nested_none)
    with c show ?thesis by (simp add: unwrapBodyIfNeeded_def)
  qed
  show ?thesis
    using few found none by (simp add: unwrapBodyIfNeeded_def) blast
qed


text \<open>
  The theorem on the two objects of the specification's unwrap guard, \<open>{method, url,
  headers, data}\<close> with an object under \<open>data\<close> and \<open>{method}\<close>, and on an object with
  two indicators and a string under \<open>data\<close>.
\<close>

theorem unwrapBodyIfNeeded_cases_witness:
  "2 \<le> indicator_count CONFIG_INDICATORS
         [(''method'', JStr ''POST''), (''url'', JStr ''u''), (''headers'', JObj []),
          (''data'', JObj [(''a'', JNum (1::int))])] \<and>
   real_key [(''method'', JStr ''POST''), (''url'', JStr ''u''), (''headers'', JObj []),
             (''data'', JObj [(''a'', JNum (1::int))])] (BODY_KEYS ! 0) = None \<and>
   real_key [(''method'', JStr ''POST''), (''url'', JStr ''u''), (''headers'', JObj []),
             (''data'', JObj [(''a'', JNum (1::int))])] (BODY_KEYS ! 1) = Some ''data'' \<and>
   unwrapBodyIfNeeded
     (JObj [(''method'', JStr ''POST''), (''url'', JStr ''u''), (''headers'', JObj []),
            (''data'', JObj [(''a'', JNum (1::int))])]) = JObj [(''a'', JNum 1)] \<and>
   indicator_count CONFIG_INDICATORS [(''method'', JStr ''POST'' :: int json)] < 2 \<and>
   unwrapBodyIfNeeded (JObj [(''method'', JStr ''POST'' :: int json)]) =
     JObj [(''method'', JStr ''POST'')] \<and>
   2 \<le> indicator_count CONFIG_INDICATORS
         [(''method'', JStr ''GET''), (''timeout'', JNum (5::int)), (''data'', JStr ''x'')] \<and>
   unwrapBodyIfNeeded
     (JObj [(''method'', JStr ''GET''), (''timeout'', JNum (5::int)), (''data'', JStr ''x'')]) =
     JObj [(''method'', JStr ''GET''), (''timeout'', JNum 5), (''data'', JStr ''x'')]"
proof -
  let ?o1 = "[(''method'', JStr ''POST''), (''url'', JStr ''u''), (''headers'', JObj []),
              (''data'', JObj [(''a'', JNum (1::int))])]"
  let ?o2 = "[(''method'', JStr ''POST'' :: int json)]"
  let ?o3 = "[(''method'', JStr ''GET''), (''timeout'', JNum (5::int)), (''data'', JStr ''x'')]"
  have c1: "2 \<le> indicator_count CONFIG_INDICATORS ?o1" by code_simp
  have k0: "real_key ?o1 (BODY_KEYS ! 0) = None" by code_simp
  have k1: "real_key ?o1 (BODY_KEYS ! 1) = Some ''data''" by code_simp
  have v1: "map_of ?o1 ''data'' = Some (JObj [(''a'', JNum 1)])" by simp
  have i1: "(1::nat) < length BODY_KEYS" by (simp add: BODY_KEYS_def)
  have e1: "is_nonnull_object (JObj [(''a'', JNum (1::int))])" by simp
  have b1: "\<forall>j<(1::nat). \<forall>k' v'. real_key ?o1 (BODY_KEYS ! j) = Some k' \<and> map_of ?o1 k' = Some v'
              \<longrightarrow> \<not> is_nonnull_object v'"
    using k0 by simp
  have c2: "indicator_count CONFIG_INDICATORS ?o2 < 2" by code_simp
  have c3: "2 \<le> indicator_count CONFIG_INDICATORS ?o3" by code_simp
  have b3: "\<forall>bk\<in>set BODY_KEYS. \<forall>k' v'. real_key ?o3 bk = Some k' \<and> map_of ?o3 k' = Some v'
              \<longrightarrow> \<not> is_nonnull_object v'"
  proof (intro ballI allI impI)
    fix bk k' v'
    assume bk: "bk \<in> set BODY_KEYS"
      and kv: "real_key ?o3 bk = Some k' \<and> map_of ?o3 k' = Some v'"
    then have "map_of ?o3 k' = Some v'" by blast
    then have "(k', v') \<in> set ?o3" by (rule map_of_SomeD)
    then show "\<not> is_nonnull_object v'" by auto
  qed
  note T1 = unwrapBodyIfNeeded_cases [where obj = ?o1 and i = 1 and k = "''data''"
      and v = "JObj [(''a'', JNum 1)]"]
  have r1: "unwrapBodyIfNeeded (JObj ?o1) = JObj [(''a'', JNum 1)]"
    by (rule T1 [THEN conjunct2, THEN conjunct2, THEN conjunct2, THEN conjunct2, THEN conjunct2,
          THEN conjunct2, THEN conjunct1, THEN mp])
       (intro conjI, fact c1, fact i1, fact k1, fact v1, fact e1, fact b1)
  note T2 = unwrapBodyIfNeeded_cases [where obj = ?o2]
  have r2: "unwrapBodyIfNeeded (JObj ?o2) = JObj ?o2"
    by (rule T2 [THEN conjunct2, THEN conjunct2, THEN conjunct2, THEN conjunct2, THEN conjunct2,
          THEN conjunct1, THEN mp]) (fact c2)
  note T3 = unwrapBodyIfNeeded_cases [where obj = ?o3]
  have r3: "unwrapBodyIfNeeded (JObj ?o3) = JObj ?o3"
    by (rule T3 [THEN conjunct2, THEN conjunct2, THEN conjunct2, THEN conjunct2, THEN conjunct2,
          THEN conjunct2, THEN conjunct2, THEN mp])
       (intro conjI, fact c3, fact b3)
  show ?thesis by (intro conjI) (fact c1 k0 k1 r1 c2 r2 c3 r3)+
qed

text \<open>
  C7 as stated fails on the hyphenated names. The object \<open>{method, base-url, data}\<close> holds
  two of the names the claim lists and an object under \<open>data\<close>, and is returned unchanged;
  \<open>{method, baseUrl, data}\<close> holds one of the names the claim lists, and is unwrapped.
\<close>

theorem hyphenated_indicators_counterexample:
  "2 \<le> indicator_count SPEC_INDICATORS
         [(''method'', JStr ''POST''), (''base-url'', JStr ''u''),
          (''data'', JObj [(''a'', JNum (1::int))])] \<and>
   real_key [(''method'', JStr ''POST''), (''base-url'', JStr ''u''),
             (''data'', JObj [(''a'', JNum (1::int))])] ''data'' = Some ''data'' \<and>
   unwrapBodyIfNeeded
     (JObj [(''method'', JStr ''POST''), (''base-url'', JStr ''u''),
            (''data'', JObj [(''a'', JNum (1::int))])]) \<noteq> JObj [(''a'', JNum 1)] \<and>
   indicator_count SPEC_INDICATORS
     [(''method'', JStr ''POST''), (''baseUrl'', JStr ''u''),
      (''data'', JObj [(''a'', JNum (1::int))])] < 2 \<and>
   unwrapBodyIfNeeded
     (JObj [(''method'', JStr ''POST''), (''baseUrl'', JStr ''u''),
            (''data'', JObj [(''a'', JNum (1::int))])]) = JObj [(''a'', JNum 1)]"
  by code_simp

lemma first_nested_array:
  assumes "i < length bks" and "\<forall>j<i. real_key obj (bks ! j) = None"
    and "real_key obj (bks ! i) = Some k" and "map_of obj k = Some (JArr xs)"
    and "bks ! i \<noteq> []"
  shows "first_nested obj bks = Some (JArr xs)"
proof (rule first_nested_index [OF assms(1)])
  show "nested_body obj (bks ! i) = Some (JArr xs)"
    using assms(3,4,5) by (simp add: nested_body_Some_iff)
  show "\<forall>j<i. nested_body obj (bks ! j) = None"
    using assms(2) by (simp add: nested_body_def)
qed

text \<open>
  C10. For an object with at least 2 config-indicator keys, let a body-like name be the
  first of \<open>BODY_KEYS\<close> that some key of the object matches, and let the first key
  matching it be bound to an array: \<open>unwrapBodyIfNeeded\<close> returns that array.
\<close>

theorem unwrapBodyIfNeeded_returns_nested_array:
  assumes "2 \<le> indicator_count CONFIG_INDICATORS obj"
    and "i < length BODY_KEYS"
    and "\<forall>j<i. real_key obj (BODY_KEYS ! j) = None"
    and "real_key obj (BODY_KEYS ! i) = Some k"
    and "map_of obj k = Some (JArr xs)"
  shows "unwrapBodyIfNeeded (JObj obj) = JArr xs"
proof -
  have "BODY_KEYS ! i \<noteq> []"
    using assms(2) by (intro BODY_KEYS_nonempty) simp
  then have "first_nested obj BODY_KEYS = Some (JArr xs)"
    using assms by (intro first_nested_array)
  with assms(1) show ?thesis by (simp add: unwrapBodyIfNeeded_def)
qed

text \<open>
  The theorem on \<open>{Method, baseUrl, Data}\<close> with the array \<open>[1, 2]\<close> under \<open>Data\<close>.
\<close>

theorem unwrapBodyIfNeeded_returns_nested_array_witness:
  "2 \<le> indicator_count CONFIG_INDICATORS
         [(''Method'', JStr ''POST''), (''baseUrl'', JStr ''u''),
          (''Data'', JArr [JNum (1::int), JNum 2])] \<and>
   (1::nat) < length BODY_KEYS \<and>
   real_key [(''Method'', JStr ''POST''), (''baseUrl'', JStr ''u''),
             (''Data'', JArr [JNum (1::int), JNum 2])] (BODY_KEYS ! 0) = None \<and>
   real_key [(''Method'', JStr ''POST''), (''baseUrl'', JStr ''u''),
             (''Data'', JArr [JNum (1::int), JNum 2])] (BODY_KEYS ! 1) = Some ''Data'' \<and>
   unwrapBodyIfNeeded
     (JObj [(''Method'', JStr ''POST''), (''baseUrl'', JStr ''u''),
            (''Data'', JArr [JNum (1::int), JNum 2])]) = JArr [JNum 1, JNum 2]"
proof -
  let ?o = "[(''Method'', JStr ''POST''), (''baseUrl'', JStr ''u''),
             (''Data'', JArr [JNum (1::int), JNum 2])]"
  have c: "2 \<le> indicator_count CONFIG_INDICATORS ?o" by code_simp
  have i: "(1::nat) < length BODY_KEYS" by (simp add: BODY_KEYS_def)
  have k0: "real_key ?o (BODY_KEYS ! 0) = None" by code_simp
  have k1: "real_key ?o (BODY_KEYS ! 1) = Some ''Data''" by code_simp
  have b: "\<forall>j<(1::nat). real_key ?o (BODY_KEYS ! j) = None" using k0 by simp
  have v: "map_of ?o ''Data'' = Some (JArr [JNum 1, JNum 2])" by simp
  have r: "unwrapBodyIfNeeded (JObj ?o) = JArr [JNum 1, JNum 2]"
    using unwrapBodyIfNeeded_returns_nested_array [OF c i b k1 v] .
  show ?thesis by (intro conjI) (fact c i k0 k1 r)+
qed

section \<open>Body selection\<close>

lemma fewer_headers_alt:
  "fewer_headers p c = (if header_keys_in c < header_keys_in p then c else p)"
  by (simp add: fewer_headers_def header_keys_in_def Let_def)

lemma foldl_fewer_headers_first_min:
  "\<exists>i<length (t # ts).
     foldl fewer_headers t ts = (t # ts) ! i \<and>
     (\<forall>j<length (t # ts). header_keys_in ((t # ts) ! i) \<le> header_keys_in ((t # ts) ! j)) \<and>
     (\<forall>j<i. header_keys_in ((t # ts) ! i) < header_keys_in ((t # ts) ! j))"
proof (induction ts rule: rev_induct)
  case Nil
  show ?case by simp
next
  case (snoc x ts)
  then obtain i where i: "i < length (t # ts)"
    and r: "foldl fewer_headers t ts = (t # ts) ! i"
    and least: "\<forall>j<length (t # ts). header_keys_in ((t # ts) ! i) \<le> header_keys_in ((t # ts) ! j)"
    and first: "\<forall>j<i. header_keys_in ((t # ts) ! i) < header_keys_in ((t # ts) ! j)"
    by blast
  let ?all = "t # ts @ [x]"
  have old: "?all ! j = (t # ts) ! j" if "j < length (t # ts)" for j
    using that by (metis append_Cons nth_append)
  have new: "?all ! length (t # ts) = x"
    by (metis append_Cons nth_append_length)
  show ?case
  proof (cases "header_keys_in x < header_keys_in ((t # ts) ! i)")
    case True
    have "foldl fewer_headers t (ts @ [x]) = x"
      using True r by (simp add: fewer_headers_alt)
    moreover have "\<forall>j<length ?all. header_keys_in x \<le> header_keys_in (?all ! j)"
    proof (intro allI impI)
      fix j assume "j < length ?all"
      then consider "j < length (t # ts)" | "j = length (t # ts)" by fastforce
      then show "header_keys_in x \<le> header_keys_in (?all ! j)"
      proof cases
        case 1
        with least have "header_keys_in ((t # ts) ! i) \<le> header_keys_in ((t # ts) ! j)" by blast
        with True old [OF 1] show ?thesis by simp
      next
        case 2
        with new show ?thesis by simp
      qed
    qed
    moreover have "\<forall>j<length (t # ts). header_keys_in x < header_keys_in (?all ! j)"
    proof (intro allI impI)
      fix j assume j: "j < length (t # ts)"
      with least have "header_keys_in ((t # ts) ! i) \<le> header_keys_in ((t # ts) ! j)" by blast
      with True old [OF j] show "header_keys_in x < header_keys_in (?all ! j)" by simp
    qed
    ultimately have "length (t # ts) < length ?all \<and>
        foldl fewer_headers t (ts @ [x]) = ?all ! length (t # ts) \<and>
        (\<forall>j<length ?all. header_keys_in (?all ! length (t # ts)) \<le> header_keys_in (?all ! j)) \<and>
        (\<forall>j<length (t # ts). header_keys_in (?all ! length (t # ts)) < header_keys_in (?all ! j))"
      using new by simp
    then show ?thesis by blast
  next
    case False
    have "foldl fewer_headers t (ts @ [x]) = (t # ts) ! i"
      using False r by (simp add: fewer_headers_alt)
    then have res: "foldl fewer_headers t (ts @ [x]) = ?all ! i"
      using old [OF i] by simp
    have "\<forall>j<length ?all. header_keys_in (?all ! i) \<le> header_keys_in (?all ! j)"
    proof (intro allI impI)
      fix j assume "j < length ?all"
      then consider "j < length (t # ts)" | "j = length (t # ts)" by fastforce
      then show "header_keys_in (?all ! i) \<le> header_keys_in (?all ! j)"
      proof cases
        case 1
        with least have "header_keys_in ((t # ts) ! i) \<le> header_keys_in ((t # ts) ! j)" by blast
        with old [OF 1] old [OF i] show ?thesis by simp
      next
        case 2
        with new False old [OF i] show ?thesis by simp
      qed
    qed
    moreover have "\<forall>j<i. header_keys_in (?all ! i) < header_keys_in (?all ! j)"
    proof (intro allI impI)
      fix j assume j: "j < i"
      then have jl: "j < length (t # ts)" using i by simp
      from first j have "header_keys_in ((t # ts) ! i) < header_keys_in ((t # ts) ! j)" by blast
      with old [OF jl] old [OF i] show "header_keys_in (?all ! i) < header_keys_in (?all ! j)" by simp
    qed
    moreover have "i < length ?all" using i by simp
    ultimately show ?thesis using res by blast
  qed
qed


lemma sorted_desc_head:
  assumes "sort_key (\<lambda>s. - score s) ss = s0 # others"
  shows "s0 \<in> set ss" and "\<forall>x\<in>set others. score x \<le> score s0"
    and "sorted (map (\<lambda>s. - score s) others)"
proof -
  have "set (sort_key (\<lambda>s. - score s) ss) = set ss" by simp
  with assms show "s0 \<in> set ss" by auto
  have "sorted (map (\<lambda>s. - score s) (sort_key (\<lambda>s. - score s) ss))"
    by (rule sorted_sort_key)
  with assms have srt: "sorted (map (\<lambda>s. - score s) (s0 # others))" by simp
  then show "\<forall>x\<in>set others. score x \<le> score s0" by auto
  from srt show "sorted (map (\<lambda>s. - score s) others)" by simp
qed

lemma top_score_sorted_head:
  assumes "sort_key (\<lambda>s. - score s) ss = s0 # others"
  shows "top_score ss = score s0"
proof -
  have in_ss: "s0 \<in> set ss" and le: "\<forall>x\<in>set others. score x \<le> score s0"
    using sorted_desc_head [OF assms] by blast+
  have "set ss = set (s0 # others)"
    using assms by (metis set_sort)
  then have "\<forall>x\<in>set ss. score x \<le> score s0" using le by auto
  then have "Max (score ` set ss) = score s0"
    using in_ss by (intro Max_eqI) auto
  then show ?thesis by (simp add: top_score_def)
qed

lemma tied_blocks_sorted:
  "filter (\<lambda>s. score s = top_score ss) (sort_key (\<lambda>s. - score s) ss) = tied_blocks ss"
proof -
  have "filter (\<lambda>s. score s = top_score ss) (sort_key (\<lambda>s. - score s) ss) =
        filter (\<lambda>s. - score s = - top_score ss) (sort_key (\<lambda>s. - score s) ss)"
    by simp
  also have "\<dots> = filter (\<lambda>s. - score s = - top_score ss) ss"
    by (rule sort_key_stable)
  also have "\<dots> = tied_blocks ss" by (simp add: tied_blocks_def)
  finally show ?thesis .
qed

lemma extractBody_scored:
  assumes kv: "extractBodyFromKeyValue text = None"
    and many: "2 \<le> length (extractBalancedBlocks text)"
  shows "\<exists>t ts. tied_blocks (map scoreBlock (extractBalancedBlocks text)) = t # ts \<and>
           extractBody text = Inr (Some (content (block (foldl fewer_headers t ts))))"
proof -
  let ?ss = "map scoreBlock (extractBalancedBlocks text)"
  let ?sorted = "sort_key (\<lambda>s. - score s) ?ss"
  have "2 \<le> length ?sorted" using many by simp
  then obtain s0 s1 others where sorted_eq: "?sorted = s0 # s1 # others"
    by (cases ?sorted; cases "tl ?sorted") auto
  have top: "top_score ?ss = score s0"
    by (rule top_score_sorted_head [OF sorted_eq])
  have tied: "tied_blocks ?ss = filter (\<lambda>s. score s = score s0) (s0 # s1 # others)"
    using tied_blocks_sorted [of ?ss] top sorted_eq by simp
  then obtain ts where ts: "tied_blocks ?ss = s0 # ts" by simp
  have f: "filter (\<lambda>s. score s = score s0) ?sorted = s0 # ts"
    using tied_blocks_sorted [of ?ss] top ts by simp
  have n0: "extractBalancedBlocks text \<noteq> []" and n1: "length (extractBalancedBlocks text) \<noteq> Suc 0"
    using many by auto
  have body: "extractBody text =
      (if score s0 > score s1 then Inr (Some (content (block s0)))
       else Inr (Some (content (block (foldl fewer_headers s0 ts)))))"
    unfolding extractBody_def Let_def
    by (simp add: kv n0 n1 sorted_eq f [unfolded sorted_eq] del: sort_key_simps filter.simps)
  show ?thesis
  proof (cases "score s0 > score s1")
    case True
    have "\<forall>x\<in>set (s1 # others). score x \<le> score s0"
      using sorted_desc_head(2) [OF sorted_eq] .
    moreover have "\<forall>x\<in>set others. score x \<le> score s1"
    proof -
      have "sorted (map (\<lambda>s. - score s) (s1 # others))"
        using sorted_desc_head(3) [OF sorted_eq] .
      then show ?thesis by auto
    qed
    ultimately have "\<forall>x\<in>set (s1 # others). score x \<noteq> score s0"
      using True by auto
    then have "filter (\<lambda>s. score s = score s0) (s1 # others) = []"
      by (simp add: filter_empty_conv)
    with tied have "tied_blocks ?ss = [s0]" by simp
    with ts have "ts = []" by simp
    with body True ts show ?thesis by simp
  next
    case False
    with body ts show ?thesis by simp
  qed
qed


lemma block_scoreBlock: "block (scoreBlock b) = b"
  by (simp add: scoreBlock_def Let_def split: prod.splits)

lemma extractBody_first_fewest:
  assumes kv: "extractBodyFromKeyValue text = None"
    and many: "2 \<le> length (extractBalancedBlocks text)"
  shows "\<exists>i<length (tied_in text).
           extractBody text = Inr (Some (content (block (tied_in text ! i)))) \<and>
           (\<forall>j<length (tied_in text).
              header_keys_in (tied_in text ! i) \<le> header_keys_in (tied_in text ! j)) \<and>
           (\<forall>j<i. header_keys_in (tied_in text ! i) < header_keys_in (tied_in text ! j))"
proof -
  obtain t ts where tied: "tied_in text = t # ts"
    and body: "extractBody text = Inr (Some (content (block (foldl fewer_headers t ts))))"
    using extractBody_scored [OF kv many] unfolding tied_in_def by blast
  show ?thesis
    using foldl_fewer_headers_first_min [of t ts] unfolding tied body by metis
qed

lemma extractBody_two_tied:
  assumes kv: "extractBodyFromKeyValue text = None"
    and two: "extractBalancedBlocks text = [b1, b2]"
    and eq: "score (scoreBlock b1) = score (scoreBlock b2)"
  shows "extractBody text =
         Inr (Some (content (if header_keys_in (scoreBlock b2) < header_keys_in (scoreBlock b1)
                             then b2 else b1)))"
proof -
  have many: "2 \<le> length (extractBalancedBlocks text)" using two by simp
  have tied: "tied_blocks (map scoreBlock (extractBalancedBlocks text)) = [scoreBlock b1, scoreBlock b2]"
    using two eq by (simp add: tied_blocks_def top_score_def)
  obtain t ts where "tied_blocks (map scoreBlock (extractBalancedBlocks text)) = t # ts"
    and body: "extractBody text = Inr (Some (content (block (foldl fewer_headers t ts))))"
    using extractBody_scored [OF kv many] by blast
  with tied have "t = scoreBlock b1" and "ts = [scoreBlock b2]" by simp_all
  with body show ?thesis
    by (simp add: fewer_headers_alt block_scoreBlock)
qed

text \<open>
  C8. Let the logfmt fast path find nothing. When the scanner returns several blocks and two
  or more of them share the top score, \<open>extractBody\<close> returns a top-scored block with the
  fewest header-vocabulary keys among the top-scored ones, and of those the earliest in scan
  order: every top-scored block before it has strictly more such keys. In particular, of
  two blocks with the same score and with 3 and 0 header-vocabulary keys, the one with 0 is
  returned, whichever comes first.
\<close>

theorem extractBody_tie_break:
  assumes "extractBodyFromKeyValue text = None"
  shows "(2 \<le> length (extractBalancedBlocks text) \<and> 2 \<le> length (tied_in text) \<longrightarrow>
           (\<exists>i<length (tied_in text).
              extractBody text = Inr (Some (content (block (tied_in text ! i)))) \<and>
              (\<forall>j<length (tied_in text).
                 header_keys_in (tied_in text ! i) \<le> header_keys_in (tied_in text ! j)) \<and>
              (\<forall>j<i. header_keys_in (tied_in text ! i) < header_keys_in (tied_in text ! j)))) \<and>
         (\<forall>b1 b2. extractBalancedBlocks text = [b1, b2] \<and>
              score (scoreBlock b1) = score (scoreBlock b2) \<and>
              header_keys_in (scoreBlock b1) = 3 \<and> header_keys_in (scoreBlock b2) = 0
            \<longrightarrow> extractBody text = Inr (Some (content b2))) \<and>
         (\<forall>b1 b2. extractBalancedBlocks text = [b1, b2] \<and>
              score (scoreBlock b1) = score (scoreBlock b2) \<and>
              header_keys_in (scoreBlock b1) = 0 \<and> header_keys_in (scoreBlock b2) = 3
            \<longrightarrow> extractBody text = Inr (Some (content b1)))"
proof (intro conjI allI impI)
  assume "2 \<le> length (extractBalancedBlocks text) \<and> 2 \<le> length (tied_in text)"
  then show "\<exists>i<length (tied_in text).
              extractBody text = Inr (Some (content (block (tied_in text ! i)))) \<and>
              (\<forall>j<length (tied_in text).
                 header_keys_in (tied_in text ! i) \<le> header_keys_in (tied_in text ! j)) \<and>
              (\<forall>j<i. header_keys_in (tied_in text ! i) < header_keys_in (tied_in text ! j))"
    using extractBody_first_fewest [OF assms] by blast
next
  fix b1 b2
  assume "extractBalancedBlocks text = [b1, b2] \<and>
          score (scoreBlock b1) = score (scoreBlock b2) \<and>
          header_keys_in (scoreBlock b1) = 3 \<and> header_keys_in (scoreBlock b2) = 0"
  then show "extractBody text = Inr (Some (content b2))"
    using extractBody_two_tied [OF assms, of b1 b2] by simp
next
  fix b1 b2
  assume "extractBalancedBlocks text = [b1, b2] \<and>
          score (scoreBlock b1) = score (scoreBlock b2) \<and>
          header_keys_in (scoreBlock b1) = 0 \<and> header_keys_in (scoreBlock b2) = 3"
  then show "extractBody text = Inr (Some (content b1))"
    using extractBody_two_tied [OF assms, of b1 b2] by simp
qed

text \<open>
  C3. On a text where the logfmt fast path finds nothing, \<open>extractBody\<close> returns \<open>null\<close>
  when the scanner returns no block, and the content of the block when the scanner returns
  exactly one, whatever its score.
\<close>

theorem extractBody_zero_or_one_block:
  assumes "extractBodyFromKeyValue text = None"
  shows "(extractBalancedBlocks text = [] \<longrightarrow> extractBody text = Inr None) \<and>
         (\<forall>b. extractBalancedBlocks text = [b] \<longrightarrow> extractBody text = Inr (Some (content b)))"
  using assms by (simp add: extractBody_def)


text \<open>
  The theorem on a text without braces and on \<open>x {a}\<close>, whose only block has no key and
  scores -100.
\<close>

theorem extractBody_zero_or_one_block_witness:
  "extractBodyFromKeyValue ''GET /ping'' = None \<and>
   extractBalancedBlocks ''GET /ping'' = [] \<and>
   extractBody ''GET /ping'' = Inr None \<and>
   extractBodyFromKeyValue ''x {a}'' = None \<and>
   extractBalancedBlocks ''x {a}'' =
     [\<lparr>content = ''{a}'', startIndex = 2, endIndex = 4, precedingText = ''x ''\<rparr>] \<and>
   score (scoreBlock \<lparr>content = ''{a}'', startIndex = 2, endIndex = 4, precedingText = ''x ''\<rparr>) = - 100 \<and>
   extractBody ''x {a}'' = Inr (Some ''{a}'')"
proof -
  let ?b = "\<lparr>content = ''{a}'', startIndex = 2, endIndex = 4, precedingText = ''x ''\<rparr>"
  have kv0: "extractBodyFromKeyValue ''GET /ping'' = None" by code_simp
  have b0: "extractBalancedBlocks ''GET /ping'' = []" by code_simp
  have kv1: "extractBodyFromKeyValue ''x {a}'' = None" by code_simp
  have b1: "extractBalancedBlocks ''x {a}'' = [?b]" by code_simp
  have s1: "score (scoreBlock ?b) = - 100" by code_simp
  have r0: "extractBody ''GET /ping'' = Inr None"
    using extractBody_zero_or_one_block [OF kv0] b0 by blast
  have "extractBody ''x {a}'' = Inr (Some (content ?b))"
    using extractBody_zero_or_one_block [OF kv1] b1 by blast
  then have r1: "extractBody ''x {a}'' = Inr (Some ''{a}'')" by simp
  show ?thesis by (intro conjI) (fact kv0 b0 r0 kv1 b1 s1 r1)+
qed

text \<open>
  The theorem on a text with two blocks that both score 15: the first follows the marker
  \<open>data:\<close> and holds 3 header-vocabulary keys, the second holds none and is returned.
\<close>

theorem extractBody_tie_break_witness:
  "extractBodyFromKeyValue ''data:{host:1,etag:2,vary:3}{x:1,y:2,z:3}'' = None \<and>
   extractBalancedBlocks ''data:{host:1,etag:2,vary:3}{x:1,y:2,z:3}'' =
     [\<lparr>content = ''{host:1,etag:2,vary:3}'', startIndex = 5, endIndex = 26,
        precedingText = ''data:''\<rparr>,
      \<lparr>content = ''{x:1,y:2,z:3}'', startIndex = 27, endIndex = 39,
        precedingText = ''data:{host:1,etag:2,vary:3}''\<rparr>] \<and>
   score (scoreBlock \<lparr>content = ''{host:1,etag:2,vary:3}'', startIndex = 5, endIndex = 26,
        precedingText = ''data:''\<rparr>) = 15 \<and>
   score (scoreBlock \<lparr>content = ''{x:1,y:2,z:3}'', startIndex = 27, endIndex = 39,
        precedingText = ''data:{host:1,etag:2,vary:3}''\<rparr>) = 15 \<and>
   header_keys_in (scoreBlock \<lparr>content = ''{host:1,etag:2,vary:3}'', startIndex = 5, endIndex = 26,
        precedingText = ''data:''\<rparr>) = 3 \<and>
   header_keys_in (scoreBlock \<lparr>content = ''{x:1,y:2,z:3}'', startIndex = 27, endIndex = 39,
        precedingText = ''data:{host:1,etag:2,vary:3}''\<rparr>) = 0 \<and>
   length (tied_in ''data:{host:1,etag:2,vary:3}{x:1,y:2,z:3}'') = 2 \<and>
   extractBody ''data:{host:1,etag:2,vary:3}{x:1,y:2,z:3}'' = Inr (Some ''{x:1,y:2,z:3}'') \<and>
   (\<exists>i<length (tied_in ''data:{host:1,etag:2,vary:3}{x:1,y:2,z:3}'').
      extractBody ''data:{host:1,etag:2,vary:3}{x:1,y:2,z:3}'' =
        Inr (Some (content (block (tied_in ''data:{host:1,etag:2,vary:3}{x:1,y:2,z:3}'' ! i)))) \<and>
      (\<forall>j<length (tied_in ''data:{host:1,etag:2,vary:3}{x:1,y:2,z:3}'').
         header_keys_in (tied_in ''data:{host:1,etag:2,vary:3}{x:1,y:2,z:3}'' ! i)
         \<le> header_keys_in (tied_in ''data:{host:1,etag:2,vary:3}{x:1,y:2,z:3}'' ! j)) \<and>
      (\<forall>j<i. header_keys_in (tied_in ''data:{host:1,etag:2,vary:3}{x:1,y:2,z:3}'' ! i)
         < header_keys_in (tied_in ''data:{host:1,etag:2,vary:3}{x:1,y:2,z:3}'' ! j)))"
proof -
  let ?t = "''data:{host:1,etag:2,vary:3}{x:1,y:2,z:3}''"
  let ?b1 = "\<lparr>content = ''{host:1,etag:2,vary:3}'', startIndex = 5, endIndex = 26,
        precedingText = ''data:''\<rparr>"
  let ?b2 = "\<lparr>content = ''{x:1,y:2,z:3}'', startIndex = 27, endIndex = 39,
        precedingText = ''data:{host:1,etag:2,vary:3}''\<rparr>"
  have kv: "extractBodyFromKeyValue ?t = None" by code_simp
  have bs: "extractBalancedBlocks ?t = [?b1, ?b2]" by code_simp
  have s1: "score (scoreBlock ?b1) = 15" by code_simp
  have s2: "score (scoreBlock ?b2) = 15" by code_simp
  have h1: "header_keys_in (scoreBlock ?b1) = 3" by code_simp
  have h2: "header_keys_in (scoreBlock ?b2) = 0" by code_simp
  have tied: "tied_in ?t = [scoreBlock ?b1, scoreBlock ?b2]"
    by (simp add: tied_in_def tied_blocks_def top_score_def bs s1 s2)
  then have len: "length (tied_in ?t) = 2" by simp
  have "extractBalancedBlocks ?t = [?b1, ?b2] \<and> score (scoreBlock ?b1) = score (scoreBlock ?b2) \<and>
        header_keys_in (scoreBlock ?b1) = 3 \<and> header_keys_in (scoreBlock ?b2) = 0"
    using bs s1 s2 h1 h2 by (intro conjI) simp_all
  then have "extractBody ?t = Inr (Some (content ?b2))"
    using extractBody_tie_break [OF kv, THEN conjunct2, THEN conjunct1, rule_format, of ?b1 ?b2]
    by blast
  then have r: "extractBody ?t = Inr (Some ''{x:1,y:2,z:3}'')" by simp
  have "2 \<le> length (extractBalancedBlocks ?t) \<and> 2 \<le> length (tied_in ?t)"
    using bs len by simp
  then have e: "\<exists>i<length (tied_in ?t).
      extractBody ?t = Inr (Some (content (block (tied_in ?t ! i)))) \<and>
      (\<forall>j<length (tied_in ?t). header_keys_in (tied_in ?t ! i) \<le> header_keys_in (tied_in ?t ! j)) \<and>
      (\<forall>j<i. header_keys_in (tied_in ?t ! i) < header_keys_in (tied_in ?t ! j))"
    using extractBody_tie_break [OF kv, THEN conjunct1] by blast
  show ?thesis by (intro conjI) (fact kv bs s1 s2 h1 h2 len r e)+
qed

section \<open>The matcher only moves forward\<close>

lemma ms_suffix: "e \<in> set (ms ci r st) \<Longrightarrow> suffix (rest e) (rest st)"
proof (induction ci r st arbitrary: e rule: ms.induct)
  case (1 ci st)
  then show ?case by simp
next
  case (2 ci items st)
  show ?case
  proof (cases "rest st")
    case Nil
    with 2 show ?thesis by simp
  next
    case (Cons c cs)
    with 2 show ?thesis by (auto split: if_splits simp: suffix_Cons)
  qed
next
  case (3 ci items st)
  show ?case
  proof (cases "rest st")
    case Nil
    with 3 show ?thesis by simp
  next
    case (Cons c cs)
    with 3 show ?thesis by (auto split: if_splits simp: suffix_Cons)
  qed
next
  case (4 ci a b st)
  from "4.prems" obtain m where m: "m \<in> set (ms ci a st)" and e: "e \<in> set (ms ci b m)"
    by auto
  have "suffix (rest m) (rest st)" using "4.IH"(1) m .
  moreover have "suffix (rest e) (rest m)" using "4.IH"(2) m e .
  ultimately show ?case by (rule suffix_order.trans [rotated])
next
  case (5 ci a b st)
  then show ?case by auto
next
  case (6 ci a st)
  from "6.prems" have "e \<in> set (concat (map (\<lambda>st'. if length (rest st') < length (rest st)
        then ms ci (Star a) st' else []) (ms ci a st)) @ [st])"
    by (simp only: ms.simps(6) [of ci a st])
  then consider "e = st"
    | m where "m \<in> set (ms ci a st)" "length (rest m) < length (rest st)" "e \<in> set (ms ci (Star a) m)"
    by (auto split: if_splits)
  then show ?case
  proof cases
    case 1
    then show ?thesis by simp
  next
    case 2
    have "suffix (rest m) (rest st)" using "6.IH"(1) 2(1) .
    moreover have "suffix (rest e) (rest m)" using "6.IH"(2) 2 by blast
    ultimately show ?thesis by (rule suffix_order.trans [rotated])
  qed
next
  case (7 ci a st)
  then show ?case by auto
next
  case (8 ci a st)
  then show ?case by auto
next
  case (9 ci st)
  then show ?case by (auto split: if_splits)
next
  case (10 ci st)
  then show ?case by (auto split: if_splits)
next
  case (11 ci st)
  then show ?case by (auto split: if_splits)
qed

lemma search_suffix:
  "search ci r i p s = Some m \<Longrightarrow> suffix (rest (snd m)) s"
proof (induction s arbitrary: i p)
  case Nil
  show ?case
  proof (cases "ms ci r (MState i p [] None)")
    case Nil
    with Nil.prems show ?thesis by simp
  next
    case (Cons e es)
    with Nil.prems have "m = (i, e)" by simp
    moreover have "suffix (rest e) (rest (MState i p [] None))"
      by (rule ms_suffix [of _ ci r]) (simp add: Cons)
    ultimately show ?thesis by simp
  qed
next
  case (Cons c cs)
  show ?case
  proof (cases "ms ci r (MState i p (c # cs) None)")
    case Nil
    with Cons.prems have "search ci r (i + 1) (Some c) cs = Some m" by simp
    then have "suffix (rest (snd m)) cs" by (rule Cons.IH)
    then show ?thesis by (simp add: suffix_Cons)
  next
    case (Cons e es)
    with Cons.prems have "m = (i, e)" by simp
    moreover have "suffix (rest e) (rest (MState i p (c # cs) None))"
      by (rule ms_suffix [of _ ci r]) (simp add: Cons)
    ultimately show ?thesis by simp
  qed
qed


text \<open>
  A match of \<open>RAW_KEY\<close> consumes at least its closing colon, so the loop of
  \<open>extractRawKeys\<close> always resumes further right: the guard in \<^const>\<open>exec_keys\<close> never
  fails, and the function is the loop of the source.
\<close>

lemma ms_Seq_via:
  assumes "e \<in> set (ms ci (Seq a b) st)"
  obtains m where "suffix (rest m) (rest st)" and "e \<in> set (ms ci b m)"
proof -
  from assms obtain m where m: "m \<in> set (ms ci a st)" and e: "e \<in> set (ms ci b m)" by auto
  from m have "suffix (rest m) (rest st)" by (rule ms_suffix)
  with e that show thesis by blast
qed

lemma ms_Cls_consumes:
  "e \<in> set (ms ci (Cls items) m) \<Longrightarrow> length (rest e) < length (rest m)"
  by (cases "rest m") (auto split: if_splits)

lemma RAW_KEY_consumes:
  assumes "e \<in> set (ms False RAW_KEY st)"
  shows "length (rest e) < length (rest st)"
proof -
  define q where "q = Opt (Cls [CChar dq, CChar sq])"
  define g where "g = Grp (Seq (Cls [CWord]) (Star (Cls [CWord, CChar CHR ''-'', CChar CHR ''.''])))"
  have shape: "RAW_KEY = Seq q (Seq g (Seq q (Seq ws (Cls [CChar CHR '':'']))))"
    by (simp add: RAW_KEY_def q_def g_def Chr_def)
  from assms obtain m1 where m1: "suffix (rest m1) (rest st)"
    and e1: "e \<in> set (ms False (Seq g (Seq q (Seq ws (Cls [CChar CHR '':''])))) m1)"
    unfolding shape by (rule ms_Seq_via)
  from e1 obtain m2 where m2: "suffix (rest m2) (rest m1)"
    and e2: "e \<in> set (ms False (Seq q (Seq ws (Cls [CChar CHR '':'']))) m2)"
    by (rule ms_Seq_via)
  from e2 obtain m3 where m3: "suffix (rest m3) (rest m2)"
    and e3: "e \<in> set (ms False (Seq ws (Cls [CChar CHR '':''])) m3)"
    by (rule ms_Seq_via)
  from e3 obtain m4 where m4: "suffix (rest m4) (rest m3)"
    and e4: "e \<in> set (ms False (Cls [CChar CHR '':'']) m4)"
    by (rule ms_Seq_via)
  have "length (rest e) < length (rest m4)" using e4 by (rule ms_Cls_consumes)
  moreover have "length (rest m4) \<le> length (rest st)"
    using m1 m2 m3 m4 by (meson suffix_length_le order_trans)
  ultimately show ?thesis by simp
qed

lemma search_RAW_KEY_consumes:
  "search False RAW_KEY i p s = Some m \<Longrightarrow> length (rest (snd m)) < length s"
proof (induction s arbitrary: i p)
  case Nil
  show ?case
  proof (cases "ms False RAW_KEY (MState i p [] None)")
    case Nil
    with Nil.prems show ?thesis by simp
  next
    case (Cons e es)
    then have "length (rest e) < length (rest (MState i p [] None))"
      by (intro RAW_KEY_consumes) simp
    then show ?thesis by simp
  qed
next
  case (Cons c cs)
  show ?case
  proof (cases "ms False RAW_KEY (MState i p (c # cs) None)")
    case Nil
    with Cons.prems have "search False RAW_KEY (i + 1) (Some c) cs = Some m" by simp
    then have "length (rest (snd m)) < length cs" by (rule Cons.IH)
    then show ?thesis by simp
  next
    case (Cons e es)
    with Cons.prems have "m = (i, e)" by simp
    moreover have "length (rest e) < length (rest (MState i p (c # cs) None))"
      by (intro RAW_KEY_consumes) (simp add: Cons)
    ultimately show ?thesis by simp
  qed
qed

lemma exec_keys_loop:
  "exec_keys i p s =
     (case search False RAW_KEY i p s of
        None \<Rightarrow> []
      | Some m \<Rightarrow> toLowerCase (group1 m) # exec_keys (pos (snd m)) (prev (snd m)) (rest (snd m)))"
proof (cases "search False RAW_KEY i p s")
  case None
  then show ?thesis by (subst exec_keys.simps) simp
next
  case (Some m)
  then have "length (rest (snd m)) < length s" by (rule search_RAW_KEY_consumes)
  with Some show ?thesis by (subst exec_keys.simps) simp
qed

section \<open>Log-prefix stripping\<close>

lemma split_nl_nonempty: "split_nl s \<noteq> []"
  by (induction s) (auto split: list.splits)

lemma join_split_nl: "join_nl (split_nl s) = s"
proof (induction s)
  case Nil
  show ?case by simp
next
  case (Cons c cs)
  obtain l ls where ls: "split_nl cs = l # ls"
    using split_nl_nonempty [of cs] by (cases "split_nl cs") auto
  with Cons show ?case by (cases ls) auto
qed

lemma split_nl_no_newline: "l \<in> set (split_nl s) \<Longrightarrow> nl \<notin> set l"
proof (induction s arbitrary: l)
  case Nil
  then show ?case by simp
next
  case (Cons c cs)
  obtain k ks where ks: "split_nl cs = k # ks"
    using split_nl_nonempty [of cs] by (cases "split_nl cs") auto
  show ?case
  proof (cases "c = nl")
    case True
    with Cons show ?thesis by auto
  next
    case False
    with Cons.prems ks have "l = c # k \<or> l \<in> set ks" by auto
    then show ?thesis
    proof
      assume "l = c # k"
      moreover have "nl \<notin> set k" using Cons.IH [of k] ks by simp
      ultimately show ?thesis using False by auto
    next
      assume "l \<in> set ks"
      then show ?thesis using Cons.IH [of l] ks by simp
    qed
  qed
qed

lemma split_nl_line: "nl \<notin> set l \<Longrightarrow> split_nl l = [l]"
  by (induction l) auto

lemma split_nl_append_line:
  "nl \<notin> set l \<Longrightarrow> split_nl (l @ nl # s) = l # split_nl s"
  by (induction l) auto

lemma split_join_nl:
  "ls \<noteq> [] \<Longrightarrow> \<forall>l\<in>set ls. nl \<notin> set l \<Longrightarrow> split_nl (join_nl ls) = ls"
proof (induction ls rule: join_nl.induct)
  case 1
  then show ?case by simp
next
  case (2 l)
  then show ?case by (simp add: split_nl_line)
next
  case (3 l k ks)
  then show ?case by (simp add: split_nl_append_line)
qed

lemma search_None_replace_from:
  "search ci r i p s = None \<Longrightarrow> replace_from ci r i p s = s"
proof (induction s arbitrary: i p)
  case Nil
  then show ?case
    by (subst replace_from.simps) (auto split: list.splits)
next
  case (Cons c cs)
  from Cons.prems have none: "ms ci r (MState i p (c # cs) None) = []"
    and nxt: "search ci r (i + 1) (Some c) cs = None"
    by (auto split: list.splits)
  from nxt have "replace_from ci r (i + 1) (Some c) cs = cs" by (rule Cons.IH)
  with none show ?case by (subst replace_from.simps) simp
qed

lemma not_test_None: "\<not> rx_test ci r s \<Longrightarrow> rx_match ci r s = None"
  unfolding rx_test_def by blast

lemma not_test_replace_all:
  assumes "\<not> rx_test ci r s"
  shows "replace_all ci r s = s"
proof -
  have "search ci r 0 None s = None"
    using not_test_None [OF assms] by (simp only: rx_match_def)
  then show ?thesis
    unfolding replace_all_def by (rule search_None_replace_from)
qed

lemma not_test_replace_first:
  assumes "\<not> rx_test ci r s"
  shows "replace_first ci r s = s"
  unfolding replace_first_def not_test_None [OF assms] by simp

lemma stripLine_unprefixed: "\<not> recognized_prefix l \<Longrightarrow> stripLine l = l"
  by (simp add: recognized_prefix_def stripLine_def not_test_replace_all not_test_replace_first)

lemma replace_from_subset: "set (replace_from ci r i p s) \<subseteq> set s"
proof (induction ci r i p s rule: replace_from.induct)
  case (1 ci r i p s)
  show ?case
  proof (cases "ms ci r (MState i p s None)")
    case Nil
    show ?thesis
    proof (cases s)
      case Nil
      with \<open>ms ci r (MState i p s None) = []\<close> show ?thesis
        by (subst replace_from.simps) simp
    next
      case (Cons c cs)
      with "1.IH"(1) [OF \<open>ms ci r (MState i p s None) = []\<close> Cons]
        \<open>ms ci r (MState i p s None) = []\<close>
      show ?thesis by (subst replace_from.simps) auto
    qed
  next
    case (Cons e es)
    show ?thesis
    proof (cases "length (rest e) < length s")
      case True
      have "suffix (rest e) (rest (MState i p s None))"
        by (rule ms_suffix [of _ ci r]) (simp add: Cons)
      then have "set (rest e) \<subseteq> set s" by (auto simp: suffix_def)
      with "1.IH"(2) [OF Cons True] Cons True show ?thesis
        by (subst replace_from.simps) auto
    next
      case False
      show ?thesis
      proof (cases s)
        case Nil
        with Cons False show ?thesis by (subst replace_from.simps) simp
      next
        case (Cons c cs)
        with "1.IH"(3) [OF \<open>ms ci r (MState i p s None) = e # es\<close> False Cons]
          \<open>ms ci r (MState i p s None) = e # es\<close> False
        show ?thesis by (subst replace_from.simps) auto
      qed
    qed
  qed
qed

lemma replace_all_subset: "set (replace_all ci r s) \<subseteq> set s"
  by (simp add: replace_all_def replace_from_subset)

lemma replace_first_subset: "set (replace_first ci r s) \<subseteq> set s"
proof (cases "rx_match ci r s")
  case None
  then show ?thesis by (simp add: replace_first_def)
next
  case (Some m)
  then have "suffix (rest (snd m)) s"
    unfolding rx_match_def by (rule search_suffix)
  then have "set (rest (snd m)) \<subseteq> set s" by (auto simp: suffix_def)
  moreover have "set (take (fst m) s) \<subseteq> set s" by (rule set_take_subset)
  ultimately show ?thesis using Some by (simp add: replace_first_def)
qed

lemma stripLine_subset: "set (stripLine l) \<subseteq> set l"
  unfolding stripLine_def
  by (meson replace_all_subset replace_first_subset subset_trans)

lemma split_stripLogPrefixes:
  "split_nl (stripLogPrefixes text) = map stripLine (split_nl text)"
proof -
  have "\<forall>l\<in>set (map stripLine (split_nl text)). nl \<notin> set l"
    using split_nl_no_newline stripLine_subset by fastforce
  then show ?thesis
    unfolding stripLogPrefixes_def
    by (intro split_join_nl) (simp_all add: split_nl_nonempty)
qed

lemma stripLogPrefixes_fixed:
  assumes "\<forall>l\<in>set (split_nl text). \<not> recognized_prefix l"
  shows "stripLogPrefixes text = text"
proof -
  have "map stripLine (split_nl text) = split_nl text"
    using assms by (simp add: map_idI stripLine_unprefixed)
  then show ?thesis by (simp add: stripLogPrefixes_def join_split_nl)
qed

text \<open>
  C1, as amended. \<open>stripLogPrefixes\<close> is total and works line by line: it keeps the
  number of lines, and a line that matches no recognized prefix passes through unchanged.
  Stripping twice equals stripping once whenever no line of the stripped text still begins
  with a recognized prefix. (Each pattern is removed at most once per line, in a fixed
  order, so a second pass can remove a prefix that the first pass uncovered.)
\<close>

theorem stripLogPrefixes_unmatched_lines:
  "length (split_nl (stripLogPrefixes text)) = length (split_nl text) \<and>
   (\<forall>i<length (split_nl text).
      \<not> recognized_prefix (split_nl text ! i) \<longrightarrow>
      split_nl (stripLogPrefixes text) ! i = split_nl text ! i) \<and>
   ((\<forall>l\<in>set (split_nl (stripLogPrefixes text)). \<not> recognized_prefix l) \<longrightarrow>
      stripLogPrefixes (stripLogPrefixes text) = stripLogPrefixes text)"
proof (intro conjI allI impI)
  show "length (split_nl (stripLogPrefixes text)) = length (split_nl text)"
    by (simp add: split_stripLogPrefixes)
next
  fix i
  assume "i < length (split_nl text)" and "\<not> recognized_prefix (split_nl text ! i)"
  then show "split_nl (stripLogPrefixes text) ! i = split_nl text ! i"
    by (simp add: split_stripLogPrefixes stripLine_unprefixed)
next
  assume "\<forall>l\<in>set (split_nl (stripLogPrefixes text)). \<not> recognized_prefix l"
  then show "stripLogPrefixes (stripLogPrefixes text) = stripLogPrefixes text"
    by (rule stripLogPrefixes_fixed)
qed

text \<open>
  C1 as stated fails on stacked prefixes: the first pass over \<open>flutter: flutter: x\<close>
  leaves \<open>flutter: x\<close> and the second leaves \<open>x\<close>; likewise for \<open>> flutter: x\<close>.
\<close>

theorem stripLogPrefixes_not_idempotent_counterexample:
  "stripLogPrefixes ''flutter: flutter: x'' = ''flutter: x'' \<and>
   stripLogPrefixes (stripLogPrefixes ''flutter: flutter: x'') = ''x'' \<and>
   stripLogPrefixes (stripLogPrefixes ''> flutter: x'') \<noteq> stripLogPrefixes ''> flutter: x''"
  by code_simp


text \<open>
  The theorem on the two lines \<open>flutter: a\<close> and \<open>b\<close>.
\<close>

theorem stripLogPrefixes_unmatched_lines_witness:
  "split_nl (''flutter: a'' @ [nl] @ ''b'') = [''flutter: a'', ''b''] \<and>
   \<not> recognized_prefix ''b'' \<and>
   split_nl (stripLogPrefixes (''flutter: a'' @ [nl] @ ''b'')) ! 1 = ''b'' \<and>
   split_nl (stripLogPrefixes (''flutter: a'' @ [nl] @ ''b'')) = [''a'', ''b''] \<and>
   \<not> recognized_prefix ''a'' \<and>
   stripLogPrefixes (stripLogPrefixes (''flutter: a'' @ [nl] @ ''b'')) =
     stripLogPrefixes (''flutter: a'' @ [nl] @ ''b'')"
proof -
  let ?t = "''flutter: a'' @ [nl] @ ''b''"
  have f1: "split_nl ?t = [''flutter: a'', ''b'']" by code_simp
  have f2: "\<not> recognized_prefix ''b''" by code_simp
  have f3: "split_nl (stripLogPrefixes ?t) = [''a'', ''b'']" by code_simp
  have f4: "\<not> recognized_prefix ''a''" by code_simp
  note T = stripLogPrefixes_unmatched_lines [of ?t]
  have i: "1 < length (split_nl ?t)" and u: "\<not> recognized_prefix (split_nl ?t ! 1)"
    using f1 f2 by simp_all
  have "split_nl (stripLogPrefixes ?t) ! 1 = split_nl ?t ! 1"
    using T [THEN conjunct2, THEN conjunct1, rule_format, OF i u] .
  then have r1: "split_nl (stripLogPrefixes ?t) ! 1 = ''b''" using f1 by simp
  have "\<forall>l\<in>set (split_nl (stripLogPrefixes ?t)). \<not> recognized_prefix l"
    using f2 f3 f4 by simp
  then have r2: "stripLogPrefixes (stripLogPrefixes ?t) = stripLogPrefixes ?t"
    using T [THEN conjunct2, THEN conjunct2] by blast
  show ?thesis by (intro conjI) (fact f1 f2 r1 f3 f4 r2)+
qed

section \<open>The logfmt fast path\<close>

text \<open>
  C6. The fast path has no pattern for a bare \<open>{...}\<close> value after \<open>payload=\<close>,
  \<open>data=\<close> or \<open>post_data=\<close>: on \<open>payload={"id":1}\<close>, which the comment above
  \<open>LOGFMT_BODY_PATTERNS\<close> lists as handled, \<open>extractBodyFromKeyValue\<close> returns \<open>null\<close>,
  while the same value after \<open>body=\<close> or \<open>request_body=\<close> is captured. As a result
  \<open>extractBody\<close> falls back to block scoring and can return another block than the
  labelled one.
\<close>

theorem bare_payload_not_matched:
  "extractBodyFromKeyValue (''payload={'' @ [dq] @ ''id'' @ [dq] @ '':1}'') = None \<and>
   extractBodyFromKeyValue (''data={'' @ [dq] @ ''id'' @ [dq] @ '':1}'') = None \<and>
   extractBodyFromKeyValue (''post_data={'' @ [dq] @ ''id'' @ [dq] @ '':1}'') = None \<and>
   extractBodyFromKeyValue (''body={'' @ [dq] @ ''id'' @ [dq] @ '':1}'') =
     Some (''{'' @ [dq] @ ''id'' @ [dq] @ '':1}'') \<and>
   extractBodyFromKeyValue (''request_body={'' @ [dq] @ ''id'' @ [dq] @ '':1}'') =
     Some (''{'' @ [dq] @ ''id'' @ [dq] @ '':1}'') \<and>
   extractBody (''payload={accept:1} x={b:2}'') = Inr (Some ''{b:2}'') \<and>
   extractBody (''body={accept:1} x={b:2}'') = Inr (Some ''{accept:1} x={b:2}'')"
  by code_simp

section \<open>URL reconstruction\<close>

lemma star_class_unfold:
  "ms ci (Star (Cls items)) st =
     (case rest st of
        [] \<Rightarrow> [st]
      | c # cs \<Rightarrow>
          if class_match ci items c
          then ms ci (Star (Cls items)) (MState (pos st + 1) (Some c) cs (cap st)) @ [st]
          else [st])"
  by (subst ms.simps(6)) (simp split: list.splits)

lemma star_class_rests:
  "rest ` set (ms ci (Star (Cls items)) st) =
     {drop k (rest st) | k. k \<le> length (takeWhile (class_match ci items) (rest st))}"
proof (induction "rest st" arbitrary: st)
  case Nil
  then have "rest st = []" by simp
  then show ?case by (subst star_class_unfold) simp
next
  case (Cons c cs)
  then have r: "rest st = c # cs" by simp
  show ?case
  proof (cases "class_match ci items c")
    case False
    with r show ?thesis by (subst star_class_unfold) simp
  next
    case True
    let ?st' = "MState (pos st + 1) (Some c) cs (cap st)"
    have IH: "rest ` set (ms ci (Star (Cls items)) ?st') =
        {drop k cs | k. k \<le> length (takeWhile (class_match ci items) cs)}"
      using Cons.hyps(1) [of ?st'] by simp
    have "rest ` set (ms ci (Star (Cls items)) st) =
        insert (c # cs) (rest ` set (ms ci (Star (Cls items)) ?st'))"
      using r True by (subst star_class_unfold) auto
    also have "\<dots> = insert (c # cs) {drop k cs | k. k \<le> length (takeWhile (class_match ci items) cs)}"
      by (simp only: IH)
    also have "\<dots> = {drop k (c # cs) | k. k \<le> Suc (length (takeWhile (class_match ci items) cs))}"
    proof (intro set_eqI iffI)
      fix x
      assume "x \<in> insert (c # cs) {drop k cs | k. k \<le> length (takeWhile (class_match ci items) cs)}"
      then consider "x = c # cs" | k where "x = drop k cs" "k \<le> length (takeWhile (class_match ci items) cs)"
        by auto
      then show "x \<in> {drop k (c # cs) | k. k \<le> Suc (length (takeWhile (class_match ci items) cs))}"
      proof cases
        case 1
        then have "x = drop 0 (c # cs)" by simp
        then show ?thesis by blast
      next
        case 2
        then have "x = drop (Suc k) (c # cs)" and "Suc k \<le> Suc (length (takeWhile (class_match ci items) cs))"
          by simp_all
        then show ?thesis by blast
      qed
    next
      fix x
      assume "x \<in> {drop k (c # cs) | k. k \<le> Suc (length (takeWhile (class_match ci items) cs))}"
      then obtain k where k: "x = drop k (c # cs)" "k \<le> Suc (length (takeWhile (class_match ci items) cs))"
        by blast
      show "x \<in> insert (c # cs) {drop k cs | k. k \<le> length (takeWhile (class_match ci items) cs)}"
      proof (cases k)
        case 0
        with k show ?thesis by simp
      next
        case (Suc j)
        with k have "x = drop j cs" and "j \<le> length (takeWhile (class_match ci items) cs)" by simp_all
        then show ?thesis by blast
      qed
    qed
    finally show ?thesis using r True by simp
  qed
qed

lemma digits_prefix_iff:
  "(\<exists>k\<le>length (takeWhile P s). drop k s = t) \<longleftrightarrow> (\<exists>ds. s = ds @ t \<and> (\<forall>d\<in>set ds. P d))"
proof
  assume "\<exists>k\<le>length (takeWhile P s). drop k s = t"
  then obtain k where k: "k \<le> length (takeWhile P s)" and t: "drop k s = t" by blast
  have "take k s = take k (takeWhile P s)"
    using k by (metis append_eq_conv_conj takeWhile_dropWhile_id take_append
        diff_is_0_eq take_0 append_Nil2)
  then have "\<forall>d\<in>set (take k s). P d"
    by (metis in_set_takeD set_takeWhileD)
  moreover have "s = take k s @ t" using t by (metis append_take_drop_id)
  ultimately show "\<exists>ds. s = ds @ t \<and> (\<forall>d\<in>set ds. P d)" by blast
next
  assume "\<exists>ds. s = ds @ t \<and> (\<forall>d\<in>set ds. P d)"
  then obtain ds where s: "s = ds @ t" and ds: "\<forall>d\<in>set ds. P d" by blast
  have "takeWhile P s = ds @ takeWhile P t"
    using s ds by (simp add: takeWhile_append2)
  then have "length ds \<le> length (takeWhile P s)" by simp
  moreover have "drop (length ds) s = t" using s by simp
  ultimately show "\<exists>k\<le>length (takeWhile P s). drop k s = t" by blast
qed


lemma class_match_digit: "class_match ci [CDigit] = is_digit"
  by (simp add: fun_eq_iff class_match_def)

lemma class_match_char: "class_match False [CChar x] c \<longleftrightarrow> c = x"
  by (simp add: class_match_def)

lemma ms_Chr_Nil: "rest st = [] \<Longrightarrow> ms False (Chr x) st = []"
  by (simp add: Chr_def)

lemma ms_Chr_Cons:
  "rest st = c # cs \<Longrightarrow>
   ms False (Chr x) st = (if c = x then [MState (pos st + 1) (Some c) cs (cap st)] else [])"
  by (simp add: Chr_def class_match_char)

lemma ms_Seq_Chr_Nil: "rest st = [] \<Longrightarrow> ms False (Seq (Chr x) r) st = []"
  by (simp add: ms_Chr_Nil)

lemma ms_Seq_Chr_Cons:
  "rest st = c # cs \<Longrightarrow>
   ms False (Seq (Chr x) r) st =
     (if c = x then ms False r (MState (pos st + 1) (Some c) cs (cap st)) else [])"
  by (simp add: ms_Chr_Cons)

lemma concat_map_concat:
  "concat (map f (concat (map g xs))) = concat (map (\<lambda>x. concat (map f (g x))) xs)"
  by (induction xs) simp_all

lemma ms_Seq_assoc: "ms ci (Seq (Seq a b) c) st = ms ci (Seq a (Seq b c)) st"
proof -
  have "(\<lambda>x. concat (map (ms ci c) (ms ci b x))) = ms ci (Seq b c)"
    by (simp add: fun_eq_iff)
  then show ?thesis by (simp add: concat_map_concat)
qed

lemma ms_80_end:
  "ms False (Seq (lit ''80'') Eol) m \<noteq> [] \<longleftrightarrow> rest m = ''80''"
proof -
  have shape: "Seq (lit ''80'') Eol = Seq (Seq (Chr CHR ''8'') (Chr CHR ''0'')) Eol"
    by (simp add: lit_def)
  have assoc: "ms False (Seq (Seq (Chr CHR ''8'') (Chr CHR ''0'')) Eol) m =
               ms False (Seq (Chr CHR ''8'') (Seq (Chr CHR ''0'') Eol)) m"
    by (rule ms_Seq_assoc)
  show ?thesis
  proof (cases "rest m")
    case Nil
    then show ?thesis unfolding shape assoc by (simp only: ms_Seq_Chr_Nil) simp
  next
    case (Cons c cs)
    note outer = Cons
    show ?thesis
    proof (cases cs)
      case Nil
      with outer show ?thesis
        unfolding shape assoc by (simp add: ms_Seq_Chr_Cons ms_Seq_Chr_Nil del: ms.simps(4))
    next
      case (Cons d ds)
      with outer show ?thesis
        unfolding shape assoc by (simp add: ms_Seq_Chr_Cons del: ms.simps(4))
    qed
  qed
qed

lemma ms_digits_80:
  "ms False (Seq (Star digit) (Seq (lit ''80'') Eol)) st \<noteq> [] \<longleftrightarrow>
     (\<exists>ds. rest st = ds @ ''80'' \<and> (\<forall>d\<in>set ds. is_digit d))"
proof -
  have "ms False (Seq (Star digit) (Seq (lit ''80'') Eol)) st \<noteq> [] \<longleftrightarrow>
        (\<exists>m\<in>set (ms False (Star digit) st). ms False (Seq (lit ''80'') Eol) m \<noteq> [])"
    by auto
  also have "\<dots> \<longleftrightarrow> (\<exists>m\<in>set (ms False (Star digit) st). rest m = ''80'')"
    by (simp only: ms_80_end)
  also have "\<dots> \<longleftrightarrow> ''80'' \<in> rest ` set (ms False (Star digit) st)"
    by force
  also have "\<dots> \<longleftrightarrow> (\<exists>k\<le>length (takeWhile is_digit (rest st)). drop k (rest st) = ''80'')"
    unfolding star_class_rests class_match_digit by (simp add: eq_commute conj_commute)
  also have "\<dots> \<longleftrightarrow> (\<exists>ds. rest st = ds @ ''80'' \<and> (\<forall>d\<in>set ds. is_digit d))"
    by (rule digits_prefix_iff)
  finally show ?thesis .
qed

lemma ms_PORT_80:
  "ms False PORT_80 (MState i p s c0) \<noteq> [] \<longleftrightarrow>
     (\<exists>ds. s = CHR '':'' # ds @ ''80'' \<and> (\<forall>d\<in>set ds. is_digit d))"
proof -
  define R where "R = Seq (Star digit) (Seq (lit ''80'') Eol)"
  have shape: "PORT_80 = Seq (Chr CHR '':'') R"
    by (simp add: PORT_80_def R_def)
  show ?thesis
  proof (cases s)
    case Nil
    then show ?thesis unfolding shape by (simp add: ms_Seq_Chr_Nil del: ms.simps(4))
  next
    case (Cons c cs)
    have "ms False PORT_80 (MState i p s c0) =
          (if c = CHR '':'' then ms False R (MState (i + 1) (Some c) cs c0) else [])"
      unfolding shape using Cons by (simp add: ms_Seq_Chr_Cons del: ms.simps(4))
    moreover have "ms False R (MState (i + 1) (Some c) cs c0) \<noteq> [] \<longleftrightarrow>
        (\<exists>ds. cs = ds @ ''80'' \<and> (\<forall>d\<in>set ds. is_digit d))"
      unfolding R_def using ms_digits_80 [of "MState (i + 1) (Some c) cs c0"] by simp
    ultimately show ?thesis using Cons by auto
  qed
qed

lemma search_PORT_80:
  "search False PORT_80 i p s \<noteq> None \<longleftrightarrow>
     (\<exists>pre ds. s = pre @ CHR '':'' # ds @ ''80'' \<and> (\<forall>d\<in>set ds. is_digit d))"
proof (induction s arbitrary: i p)
  case Nil
  have "ms False PORT_80 (MState i p [] None) = []"
    using ms_PORT_80 [of i p "[]" None] by simp
  then show ?case by simp
next
  case (Cons c cs)
  have here: "ms False PORT_80 (MState i p (c # cs) None) \<noteq> [] \<longleftrightarrow>
      (\<exists>ds. c # cs = CHR '':'' # ds @ ''80'' \<and> (\<forall>d\<in>set ds. is_digit d))"
    by (rule ms_PORT_80)
  have later: "search False PORT_80 (i + 1) (Some c) cs \<noteq> None \<longleftrightarrow>
      (\<exists>pre ds. cs = pre @ CHR '':'' # ds @ ''80'' \<and> (\<forall>d\<in>set ds. is_digit d))"
    by (rule Cons.IH)
  have "search False PORT_80 i p (c # cs) \<noteq> None \<longleftrightarrow>
        ms False PORT_80 (MState i p (c # cs) None) \<noteq> [] \<or>
        search False PORT_80 (i + 1) (Some c) cs \<noteq> None"
    by (cases "ms False PORT_80 (MState i p (c # cs) None)") simp_all
  also have "\<dots> \<longleftrightarrow> (\<exists>ds. c # cs = CHR '':'' # ds @ ''80'' \<and> (\<forall>d\<in>set ds. is_digit d)) \<or>
        (\<exists>pre ds. cs = pre @ CHR '':'' # ds @ ''80'' \<and> (\<forall>d\<in>set ds. is_digit d))"
    by (simp only: here later)
  also have "\<dots> \<longleftrightarrow> (\<exists>pre ds. c # cs = pre @ CHR '':'' # ds @ ''80'' \<and> (\<forall>d\<in>set ds. is_digit d))"
  proof
    assume "(\<exists>ds. c # cs = CHR '':'' # ds @ ''80'' \<and> (\<forall>d\<in>set ds. is_digit d)) \<or>
        (\<exists>pre ds. cs = pre @ CHR '':'' # ds @ ''80'' \<and> (\<forall>d\<in>set ds. is_digit d))"
    then show "\<exists>pre ds. c # cs = pre @ CHR '':'' # ds @ ''80'' \<and> (\<forall>d\<in>set ds. is_digit d)"
    proof
      assume "\<exists>ds. c # cs = CHR '':'' # ds @ ''80'' \<and> (\<forall>d\<in>set ds. is_digit d)"
      then obtain ds where "c # cs = [] @ CHR '':'' # ds @ ''80''" "\<forall>d\<in>set ds. is_digit d"
        by auto
      then show ?thesis by blast
    next
      assume "\<exists>pre ds. cs = pre @ CHR '':'' # ds @ ''80'' \<and> (\<forall>d\<in>set ds. is_digit d)"
      then obtain pre ds where "c # cs = (c # pre) @ CHR '':'' # ds @ ''80''" "\<forall>d\<in>set ds. is_digit d"
        by auto
      then show ?thesis by blast
    qed
  next
    assume "\<exists>pre ds. c # cs = pre @ CHR '':'' # ds @ ''80'' \<and> (\<forall>d\<in>set ds. is_digit d)"
    then obtain pre ds where eq: "c # cs = pre @ CHR '':'' # ds @ ''80''"
      and ds: "\<forall>d\<in>set ds. is_digit d" by blast
    show "(\<exists>ds. c # cs = CHR '':'' # ds @ ''80'' \<and> (\<forall>d\<in>set ds. is_digit d)) \<or>
        (\<exists>pre ds. cs = pre @ CHR '':'' # ds @ ''80'' \<and> (\<forall>d\<in>set ds. is_digit d))"
    proof (cases pre)
      case Nil
      with eq ds show ?thesis by auto
    next
      case (Cons x xs)
      with eq have "cs = xs @ CHR '':'' # ds @ ''80''" by simp
      with ds show ?thesis by blast
    qed
  qed
  finally show ?case .
qed

lemma test_PORT_80: "rx_test False PORT_80 host \<longleftrightarrow> port_ends_80 host"
  unfolding rx_test_def rx_match_def port_ends_80_def by (rule search_PORT_80)


text \<open>
  C5, as amended. Let \<open>extractUrl\<close> reach the reconstruction stage: no labeled URL, no
  labeled base URL and no raw \<open>http(s)://\<close> token is found. When both a request-line
  path and a host field are found, it returns scheme, \<open>://\<close>, host and path, where the
  scheme is \<open>http\<close> exactly when the host ends with a colon, any number of digits and
  \<open>80\<close> (so for port 80, but also 8080 or 1080), and \<open>https\<close> otherwise. When only a
  host field is found, it returns \<open>https://\<close> followed by the host.
\<close>

theorem extractUrl_reconstruction:
  assumes "rx_match True LABELED_URL text = None"
    and "rx_match True BASE_URL text = None"
    and "rx_match False FULL_URL text = None"
  shows "(\<forall>pathMatch hostMatch.
            rx_match True REQUEST_LINE text = Some pathMatch \<and>
            rx_match True HOST_FIELD text = Some hostMatch \<longrightarrow>
            extractUrl text =
              Some ((if port_ends_80 (group1 hostMatch) then ''http'' else ''https'') @ ''://'' @
                    group1 hostMatch @ group1 pathMatch)) \<and>
         (\<forall>hostMatch.
            rx_match True REQUEST_LINE text = None \<and>
            rx_match True HOST_FIELD text = Some hostMatch \<longrightarrow>
            extractUrl text = Some (''https://'' @ group1 hostMatch))"
  using assms by (simp add: extractUrl_def test_PORT_80 Let_def)

text \<open>
  The theorem on a request line with \<open>host=a.b:80\<close>, and on the lone field
  \<open>server: a.b:443\<close>.
\<close>

theorem extractUrl_reconstruction_witness:
  "rx_match True LABELED_URL ''GET /x HTTP host=a.b:80'' = None \<and>
   rx_match True BASE_URL ''GET /x HTTP host=a.b:80'' = None \<and>
   rx_match False FULL_URL ''GET /x HTTP host=a.b:80'' = None \<and>
   map_option group1 (rx_match True REQUEST_LINE ''GET /x HTTP host=a.b:80'') = Some ''/x'' \<and>
   map_option group1 (rx_match True HOST_FIELD ''GET /x HTTP host=a.b:80'') = Some ''a.b:80'' \<and>
   port_ends_80 ''a.b:80'' \<and>
   extractUrl ''GET /x HTTP host=a.b:80'' = Some ''http://a.b:80/x'' \<and>
   rx_match True LABELED_URL ''server: a.b:443'' = None \<and>
   rx_match True BASE_URL ''server: a.b:443'' = None \<and>
   rx_match False FULL_URL ''server: a.b:443'' = None \<and>
   rx_match True REQUEST_LINE ''server: a.b:443'' = None \<and>
   map_option group1 (rx_match True HOST_FIELD ''server: a.b:443'') = Some ''a.b:443'' \<and>
   extractUrl ''server: a.b:443'' = Some ''https://a.b:443''"
proof -
  let ?t = "''GET /x HTTP host=a.b:80''"
  let ?u = "''server: a.b:443''"
  have l: "rx_match True LABELED_URL ?t = None" by code_simp
  have b: "rx_match True BASE_URL ?t = None" by code_simp
  have f: "rx_match False FULL_URL ?t = None" by code_simp
  have p: "map_option group1 (rx_match True REQUEST_LINE ?t) = Some ''/x''" by code_simp
  have h: "map_option group1 (rx_match True HOST_FIELD ?t) = Some ''a.b:80''" by code_simp
  have "''a.b:80'' = ''a.b'' @ CHR '':'' # [] @ ''80'' \<and> (\<forall>d\<in>set []. is_digit d)" by simp
  then have e: "port_ends_80 ''a.b:80''" unfolding port_ends_80_def by blast
  from p obtain pm where pm: "rx_match True REQUEST_LINE ?t = Some pm" "group1 pm = ''/x''"
    by auto
  from h obtain hm where hm: "rx_match True HOST_FIELD ?t = Some hm" "group1 hm = ''a.b:80''"
    by auto
  have "extractUrl ?t =
      Some ((if port_ends_80 (group1 hm) then ''http'' else ''https'') @ ''://'' @ group1 hm @ group1 pm)"
    using extractUrl_reconstruction [OF l b f, THEN conjunct1] pm(1) hm(1) by blast
  then have r: "extractUrl ?t = Some ''http://a.b:80/x''"
    using e pm(2) hm(2) by simp
  have l2: "rx_match True LABELED_URL ?u = None" by code_simp
  have b2: "rx_match True BASE_URL ?u = None" by code_simp
  have f2: "rx_match False FULL_URL ?u = None" by code_simp
  have p2: "rx_match True REQUEST_LINE ?u = None" by code_simp
  have h2: "map_option group1 (rx_match True HOST_FIELD ?u) = Some ''a.b:443''" by code_simp
  from h2 obtain hm2 where hm2: "rx_match True HOST_FIELD ?u = Some hm2" "group1 hm2 = ''a.b:443''"
    by auto
  have "extractUrl ?u = Some (''https://'' @ group1 hm2)"
    using extractUrl_reconstruction [OF l2 b2 f2, THEN conjunct2] p2 hm2(1) by blast
  then have r2: "extractUrl ?u = Some ''https://a.b:443''"
    using hm2(2) by simp
  show ?thesis by (intro conjI) (fact l b f p h e r l2 b2 f2 p2 h2 r2)+
qed

text \<open>
  C5 as stated fails for a port that ends in 80 without being 80: the text reaches the
  reconstruction stage, the host \<open>a.b:8080\<close> does not end with the literal \<open>:80\<close>, and the
  scheme is \<open>http\<close>.
\<close>

theorem port_8080_counterexample:
  "rx_match True LABELED_URL ''GET /x HTTP host=a.b:8080'' = None \<and>
   rx_match True BASE_URL ''GET /x HTTP host=a.b:8080'' = None \<and>
   rx_match False FULL_URL ''GET /x HTTP host=a.b:8080'' = None \<and>
   map_option group1 (rx_match True REQUEST_LINE ''GET /x HTTP host=a.b:8080'') = Some ''/x'' \<and>
   map_option group1 (rx_match True HOST_FIELD ''GET /x HTTP host=a.b:8080'') = Some ''a.b:8080'' \<and>
   \<not> ends_with ''a.b:8080'' '':80'' \<and>
   extractUrl ''GET /x HTTP host=a.b:8080'' = Some ''http://a.b:8080/x''"
  by code_simp

section \<open>The block scanner's invariant\<close>

lemma unquoted_append:
  "unquoted m (s @ t) = unquoted m s @ unquoted (foldl qstep m s) t"
  by (induction s arbitrary: m) simp_all

lemma opens_snoc:
  "opens (s @ [c]) = opens s + (if foldl qstep Out s = Out \<and> c = CHR ''{'' then 1 else 0)"
  by (simp add: opens_def unquoted_append)

lemma closes_snoc:
  "closes (s @ [c]) = closes s + (if foldl qstep Out s = Out \<and> c = CHR ''}'' then 1 else 0)"
  by (simp add: closes_def unquoted_append)

lemma pos_prefixes_snoc:
  assumes "pos_prefixes sg" and "closes (sg @ [c]) < opens (sg @ [c])"
  shows "pos_prefixes (sg @ [c])"
  unfolding pos_prefixes_def
proof (intro allI impI)
  fix n assume n: "0 < n \<and> n \<le> length (sg @ [c])"
  show "closes (take n (sg @ [c])) < opens (take n (sg @ [c]))"
  proof (cases "n \<le> length sg")
    case True
    with n assms(1) show ?thesis by (simp add: pos_prefixes_def)
  next
    case False
    with n have "n = length (sg @ [c])" by simp
    with assms(2) show ?thesis by simp
  qed
qed

lemma open_seg_extend:
  assumes seg: "open_seg text i bs d m" and i: "i < length text"
    and d': "d' = d + brace_delta m (text ! i)" and pos: "0 < d'"
  shows "open_seg text (Suc i) bs d' (qstep m (text ! i))"
proof -
  from seg obtain pre sg where t: "take i text = pre @ sg" and pre: "length pre = bs"
    and ne: "sg \<noteq> []" and hd: "hd sg = CHR ''{''" and m: "foldl qstep Out sg = m"
    and cnt: "int (opens sg) = int (closes sg) + d" and pp: "pos_prefixes sg"
    unfolding open_seg_def by blast
  let ?c = "text ! i"
  let ?sg = "sg @ [?c]"
  have t': "take (Suc i) text = pre @ ?sg"
    using i t by (simp add: take_Suc_conv_app_nth)
  have cnt': "int (opens ?sg) = int (closes ?sg) + d'"
    using cnt d' m by (auto simp: opens_snoc closes_snoc brace_delta_def)
  then have "closes ?sg < opens ?sg" using pos by linarith
  then have pp': "pos_prefixes ?sg" using pp by (intro pos_prefixes_snoc)
  have "foldl qstep Out ?sg = qstep m ?c" using m by simp
  moreover have "hd ?sg = CHR ''{''" using ne hd by simp
  ultimately show ?thesis
    unfolding open_seg_def using t' pre cnt' pp' by blast
qed

lemma open_seg_start:
  assumes "i < length text" and "text ! i = CHR ''{''"
  shows "open_seg text (Suc i) i 1 Out"
proof -
  have "take (Suc i) text = take i text @ [CHR ''{'']"
    using assms by (simp add: take_Suc_conv_app_nth)
  moreover have "length (take i text) = i" using assms by simp
  moreover have "pos_prefixes [CHR ''{'']"
  proof -
    have "n = 1" if "0 < n \<and> n \<le> length [CHR ''{'']" for n using that by simp
    then show ?thesis
      unfolding pos_prefixes_def by (auto simp: opens_def closes_def)
  qed
  moreover have "int (opens [CHR ''{'']) = int (closes [CHR ''{'']) + 1"
    by (simp add: opens_def closes_def)
  ultimately show ?thesis
    unfolding open_seg_def by (intro exI [of _ "take i text"] exI [of _ "[CHR ''{'']"]) simp
qed

lemma substring_nat:
  assumes "a \<le> b" and "b \<le> length s"
  shows "substring s (int a) (int b) = drop a (take b s)"
proof -
  have "take (b - a) (drop a s) = drop a (take b s)"
    by (simp add: drop_take)
  moreover have "substring s (int a) (int b) = take (b - a) (drop a s)"
    using assms by (simp add: substring_def Let_def min_def max_def nat_diff_distrib')
  ultimately show ?thesis by simp
qed

lemma open_seg_close:
  assumes seg: "open_seg text i bs 1 Out" and i: "i < length text" and c: "text ! i = CHR ''}''"
  shows "well_formed_block text
           \<lparr>content = substring text (int bs) (int i + 1), startIndex = int bs, endIndex = int i,
            precedingText = p\<rparr>"
proof -
  from seg obtain pre sg where t: "take i text = pre @ sg" and pre: "length pre = bs"
    and ne: "sg \<noteq> []" and hd: "hd sg = CHR ''{''" and m: "foldl qstep Out sg = Out"
    and cnt: "int (opens sg) = int (closes sg) + 1" and pp: "pos_prefixes sg"
    unfolding open_seg_def by blast
  have len: "bs + length sg = i"
    using t pre i by (metis length_append length_take min.absorb2 less_imp_le_nat)
  have t': "take (Suc i) text = pre @ sg @ [CHR ''}'']"
    using i t c by (simp add: take_Suc_conv_app_nth)
  have "substring text (int bs) (int (Suc i)) = drop bs (take (Suc i) text)"
    using len i by (intro substring_nat) simp_all
  then have content: "substring text (int bs) (int i + 1) = sg @ [CHR ''}'']"
    using t' pre by (simp add: add.commute)
  have eq: "opens (sg @ [CHR ''}'']) = closes (sg @ [CHR ''}''])"
    using cnt m by (simp add: opens_snoc closes_snoc)
  have pref: "\<forall>n. 0 < n \<and> n < length (sg @ [CHR ''}'']) \<longrightarrow>
      closes (take n (sg @ [CHR ''}''])) < opens (take n (sg @ [CHR ''}'']))"
    using pp by (simp add: pos_prefixes_def)
  have "bs < i" using len ne by (cases sg) auto
  then show ?thesis
    unfolding well_formed_block_def
    using content eq pref ne hd i by simp
qed


lemma scan_inv_idle:
  assumes inv: "scan_inv text i st"
    and same: "blocks st' = blocks st" "blockStart st' = blockStart st"
    and d: "depth st = 0" "depth st' = 0"
    and q: "inString st' \<longrightarrow> (\<exists>q. stringChar st' = [q])"
  shows "scan_inv text j st'"
  using inv same d q unfolding scan_inv_def by simp

lemma scan_inv_advance:
  assumes inv: "scan_inv text i st" and i: "i < length text"
    and same: "blocks st' = blocks st" "blockStart st' = blockStart st"
    and d: "0 < depth st" "depth st' = depth st + brace_delta (mode_of st) (text ! i)" "0 < depth st'"
    and m: "mode_of st' = qstep (mode_of st) (text ! i)"
    and q: "inString st' \<longrightarrow> (\<exists>q. stringChar st' = [q])"
  shows "scan_inv text (Suc i) st'"
proof -
  from inv d(1) i obtain bs where bs: "blockStart st = int bs"
    and seg: "open_seg text i bs (depth st) (mode_of st)"
    unfolding scan_inv_def by auto
  have "open_seg text (Suc i) bs (depth st') (mode_of st')"
    unfolding m using seg i d(2) d(3) by (rule open_seg_extend)
  then show ?thesis
    using inv same d(3) q bs unfolding scan_inv_def by auto
qed

lemma scan_inv_skip:
  assumes inv: "scan_inv text i st" and i: "i < length text"
    and s: "inString st" and c: "text ! i = bsl"
  shows "scan_inv text (i + 2) st"
proof (cases "0 < depth st \<and> i + 2 \<le> length text")
  case False
  with inv show ?thesis unfolding scan_inv_def by auto
next
  case True
  from inv True i obtain bs where bs: "blockStart st = int bs"
    and seg: "open_seg text i bs (depth st) (mode_of st)"
    unfolding scan_inv_def by auto
  from inv s obtain q where q: "stringChar st = [q]" unfolding scan_inv_def by auto
  have m: "mode_of st = In q" using s q by (simp add: mode_of_def)
  have seg': "open_seg text i bs (depth st) (In q)" using seg m by simp
  have "open_seg text (Suc i) bs (depth st) (qstep (In q) (text ! i))"
    by (rule open_seg_extend [OF seg' i]) (use True in \<open>simp_all add: brace_delta_def\<close>)
  then have one: "open_seg text (Suc i) bs (depth st) (Esc q)" using c by simp
  have i': "Suc i < length text" using True by simp
  have "open_seg text (Suc (Suc i)) bs (depth st) (qstep (Esc q) (text ! Suc i))"
    by (rule open_seg_extend [OF one i']) (use True in \<open>simp_all add: brace_delta_def\<close>)
  then have "open_seg text (i + 2) bs (depth st) (mode_of st)" using m by simp
  with inv bs show ?thesis unfolding scan_inv_def by auto
qed


lemma scan_step_inv:
  assumes inv: "scan_inv text i st" and i: "i < length text"
  shows "scan_inv text (fst (scan_step text i st)) (snd (scan_step text i st))"
proof -
  let ?ch = "text ! i"
  have depth0: "0 \<le> depth st" using inv unfolding scan_inv_def by simp
  show ?thesis
  proof (cases "inString st")
    case True
    from inv True obtain q where q: "stringChar st = [q]" unfolding scan_inv_def by auto
    have m: "mode_of st = In q" using True q by (simp add: mode_of_def)
    show ?thesis
    proof (cases "?ch = bsl")
      case bs: True
      have "scan_step text i st = (i + 2, st)"
        using True bs by (simp add: scan_step_def)
      then show ?thesis using scan_inv_skip [OF inv i True bs] by simp
    next
      case nb: False
      show ?thesis
      proof (cases "?ch = q")
        case cq: True
        let ?st' = "st\<lparr>inString := False\<rparr>"
        have step: "scan_step text i st = (i + 1, ?st')"
          using True nb cq q by (simp add: scan_step_def)
        have "scan_inv text (Suc i) ?st'"
        proof (cases "depth st = 0")
          case True
          then show ?thesis using inv by (intro scan_inv_idle [OF inv]) simp_all
        next
          case False
          with depth0 have "0 < depth st" by simp
          then show ?thesis
            using m nb cq
            by (intro scan_inv_advance [OF inv i]) (simp_all add: brace_delta_def mode_of_def)
        qed
        with step show ?thesis by simp
      next
        case nq: False
        have step: "scan_step text i st = (i + 1, st)"
          using True nb nq q by (simp add: scan_step_def)
        have "scan_inv text (Suc i) st"
        proof (cases "depth st = 0")
          case True
          then show ?thesis using inv by (intro scan_inv_idle [OF inv]) (simp_all add: scan_inv_def)
        next
          case False
          with depth0 have "0 < depth st" by simp
          then show ?thesis
            using m nb nq inv
            by (intro scan_inv_advance [OF inv i]) (simp_all add: brace_delta_def scan_inv_def)
        qed
        with step show ?thesis by simp
      qed
    qed
  next
    case False
    have m: "mode_of st = Out" using False by (simp add: mode_of_def)
    show ?thesis
    proof (cases "?ch = dq \<or> ?ch = sq")
      case quote: True
      let ?st' = "st\<lparr>inString := True, stringChar := [?ch]\<rparr>"
      have step: "scan_step text i st = (i + 1, ?st')"
        using False quote by (simp add: scan_step_def)
      have "scan_inv text (Suc i) ?st'"
      proof (cases "depth st = 0")
        case True
        then show ?thesis by (intro scan_inv_idle [OF inv]) simp_all
      next
        case nz: False
        with depth0 have "0 < depth st" by simp
        then show ?thesis
          using m quote
          by (intro scan_inv_advance [OF inv i]) (auto simp: brace_delta_def mode_of_def)
      qed
      with step show ?thesis by simp
    next
      case nquote: False
      show ?thesis
      proof (cases "?ch = CHR ''{''")
        case op: True
        let ?st' = "st\<lparr>depth := depth st + 1,
                       blockStart := (if depth st = 0 then int i else blockStart st)\<rparr>"
        have step: "scan_step text i st = (i + 1, ?st')"
          using False nquote op by (simp add: scan_step_def)
        have "scan_inv text (Suc i) ?st'"
        proof (cases "depth st = 0")
          case True
          have "open_seg text (Suc i) i 1 Out" using i op by (rule open_seg_start)
          then show ?thesis
            using inv True False unfolding scan_inv_def by (auto simp: mode_of_def)
        next
          case nz: False
          with depth0 have "0 < depth st" by simp
          then show ?thesis
            using m op nz inv False
            by (intro scan_inv_advance [OF inv i])
               (simp_all add: brace_delta_def mode_of_def scan_inv_def)
        qed
        with step show ?thesis by simp
      next
        case nop: False
        show ?thesis
        proof (cases "?ch = CHR ''}''")
          case cl: True
          consider "depth st = 0" | "depth st = 1" | "1 < depth st"
            using depth0 by linarith
          then show ?thesis
          proof cases
            case 1
            have "scan_step text i st = (i + 1, st\<lparr>depth := 0\<rparr>)"
              using False nquote nop cl 1 by (simp add: scan_step_def)
            moreover have "scan_inv text (Suc i) (st\<lparr>depth := 0\<rparr>)"
              using 1 inv by (intro scan_inv_idle [OF inv]) (simp_all add: scan_inv_def)
            ultimately show ?thesis by simp
          next
            case 2
            from inv 2 i obtain bs where bs: "blockStart st = int bs"
              and seg: "open_seg text i bs 1 Out"
              unfolding scan_inv_def using m by auto
            let ?b = "\<lparr>content = substring text (int bs) (int i + 1), startIndex = int bs,
                       endIndex = int i,
                       precedingText = substring text (max 0 (int bs - 300)) (int bs)\<rparr>"
            let ?st' = "st\<lparr>blocks := blocks st @ [?b], blockStart := - 1, depth := 0\<rparr>"
            have step: "scan_step text i st = (i + 1, ?st')"
              using False nquote nop cl 2 bs by (simp add: scan_step_def Let_def)
            have "well_formed_block text ?b" using seg i cl by (rule open_seg_close)
            then have "scan_inv text (Suc i) ?st'"
              using inv False unfolding scan_inv_def by auto
            with step show ?thesis by simp
          next
            case 3
            let ?st' = "st\<lparr>depth := depth st - 1\<rparr>"
            have step: "scan_step text i st = (i + 1, ?st')"
              using False nquote nop cl 3 by (simp add: scan_step_def Let_def)
            have "scan_inv text (Suc i) ?st'"
              using m cl 3 inv False
              by (intro scan_inv_advance [OF inv i])
                 (simp_all add: brace_delta_def mode_of_def scan_inv_def)
            with step show ?thesis by simp
          qed
        next
          case ncl: False
          have step: "scan_step text i st = (i + 1, st)"
            using False nquote nop ncl by (simp add: scan_step_def)
          have "scan_inv text (Suc i) st"
          proof (cases "depth st = 0")
            case True
            then show ?thesis using inv by (intro scan_inv_idle [OF inv]) (simp_all add: scan_inv_def)
          next
            case nz: False
            with depth0 have "0 < depth st" by simp
            then show ?thesis
              using m nquote nop ncl inv
              by (intro scan_inv_advance [OF inv i]) (simp_all add: brace_delta_def scan_inv_def)
          qed
          with step show ?thesis by simp
        qed
      qed
    qed
  qed
qed

lemma scan_loop_inv:
  "scan_inv src i st \<Longrightarrow> \<forall>b\<in>set (blocks (scan_loop src i st)). well_formed_block src b"
proof (induction src i st rule: scan_loop.induct)
  case (1 src i st)
  show ?case
  proof (cases "i < length src")
    case True
    have "scan_inv src (fst (scan_step src i st)) (snd (scan_step src i st))"
      using "1.prems" True by (rule scan_step_inv)
    then have "\<forall>b\<in>set (blocks (scan_loop src (fst (scan_step src i st))
        (snd (scan_step src i st)))). well_formed_block src b"
      using "1.IH" True by blast
    then show ?thesis using True by (subst scan_loop.simps) simp
  next
    case False
    then show ?thesis
      using "1.prems" by (subst scan_loop.simps) (simp add: scan_inv_def)
  qed
qed

lemma scan_inv_init: "scan_inv text 0 scan_init"
  by (simp add: scan_inv_def scan_init_def)

lemma extractBalancedBlocks_well_formed:
  "b \<in> set (extractBalancedBlocks text) \<Longrightarrow> well_formed_block text b"
  unfolding extractBalancedBlocks_def using scan_loop_inv [OF scan_inv_init] by blast


subsection \<open>An unmatched closing brace\<close>

lemma substring_append_left:
  assumes "a \<le> int (length s)" and "b \<le> int (length s)"
  shows "substring (s @ x) a b = substring s a b"
proof -
  define lo where "lo = nat (min (max 0 a) (max 0 b))"
  define hi where "hi = nat (max (max 0 a) (max 0 b))"
  have l: "substring (s @ x) a b = take (hi - lo) (drop lo (s @ x))"
    using assms unfolding substring_def Let_def lo_def hi_def
    by (simp add: min_def max_def nat_diff_distrib')
  have r: "substring s a b = take (hi - lo) (drop lo s)"
    using assms unfolding substring_def Let_def lo_def hi_def
    by (simp add: min_def max_def nat_diff_distrib')
  have "hi \<le> length s" using assms unfolding hi_def by (auto simp: max_def)
  then have "take (hi - lo) (drop lo (s @ x)) = take (hi - lo) (drop lo s)" by simp
  with l r show ?thesis by simp
qed

lemma scan_step_append:
  assumes "i < length pre" and "blockStart st < int i"
  shows "scan_step (pre @ x) i st = scan_step pre i st"
proof -
  have c: "(pre @ x) ! i = pre ! i" using assms(1) by (simp add: nth_append)
  have s1: "substring (pre @ x) (blockStart st) (int i + 1) = substring pre (blockStart st) (int i + 1)"
    using assms by (intro substring_append_left) simp_all
  have s2: "substring (pre @ x) (max 0 (blockStart st - 300)) (blockStart st) =
            substring pre (max 0 (blockStart st - 300)) (blockStart st)"
    using assms by (intro substring_append_left) simp_all
  show ?thesis unfolding scan_step_def c s1 s2 ..
qed

lemma scan_step_index:
  "fst (scan_step src i st) = i + 1 \<or>
   (fst (scan_step src i st) = i + 2 \<and> snd (scan_step src i st) = st \<and> inString st)"
  by (simp add: scan_step_def Let_def)

lemma scan_step_blockStart:
  "blockStart st < int i \<Longrightarrow> blockStart (snd (scan_step src i st)) < int (fst (scan_step src i st))"
  by (simp add: scan_step_def Let_def)

lemma scan_loop_done: "length src \<le> i \<Longrightarrow> scan_loop src i st = st"
  by (subst scan_loop.simps) simp

lemma scan_loop_step:
  "i < length src \<Longrightarrow>
   scan_loop src i st = scan_loop src (fst (scan_step src i st)) (snd (scan_step src i st))"
  by (subst scan_loop.simps) simp

lemma scan_loop_prefix:
  "i \<le> length pre \<Longrightarrow> blockStart st < int i \<Longrightarrow> \<not> inString (scan_loop pre i st) \<Longrightarrow>
   scan_loop (pre @ x) i st = scan_loop (pre @ x) (length pre) (scan_loop pre i st)"
proof (induction pre i st rule: scan_loop.induct)
  case (1 pre i st)
  show ?case
  proof (cases "i < length pre")
    case False
    with "1.prems" have "i = length pre" by simp
    then show ?thesis by (simp add: scan_loop_done)
  next
    case True
    let ?i' = "fst (scan_step pre i st)"
    let ?st' = "snd (scan_step pre i st)"
    have same: "scan_step (pre @ x) i st = scan_step pre i st"
      using True "1.prems"(2) by (rule scan_step_append)
    have unfold: "scan_loop pre i st = scan_loop pre ?i' ?st'"
      using True by (rule scan_loop_step)
    have le: "?i' \<le> length pre"
    proof (rule ccontr)
      assume "\<not> ?i' \<le> length pre"
      with scan_step_index [of pre i st] True
      have over: "?i' = i + 2" "?st' = st" "inString st" "length pre < ?i'" by auto
      then have "scan_loop pre ?i' ?st' = st" by (simp add: scan_loop_done)
      with unfold over "1.prems"(3) show False by simp
    qed
    have "scan_loop (pre @ x) ?i' ?st' = scan_loop (pre @ x) (length pre) (scan_loop pre ?i' ?st')"
    proof (rule "1.IH" [OF True le])
      show "blockStart ?st' < int ?i'" using "1.prems"(2) by (rule scan_step_blockStart)
      show "\<not> inString (scan_loop pre ?i' ?st')" using "1.prems"(3) unfold by simp
    qed
    moreover have "scan_loop (pre @ x) i st = scan_loop (pre @ x) ?i' ?st'"
      using True same by (subst scan_loop.simps) simp
    ultimately show ?thesis using unfold by simp
  qed
qed


lemma substring_shift:
  assumes "length pre \<le> bs" and "bs \<le> j" and "j < length (pre @ post)"
  shows "substring (pre @ c # post) (int bs + 1) (int j + 2) =
         substring (pre @ post) (int bs) (int j + 1)"
proof -
  have "substring (pre @ c # post) (int (Suc bs)) (int (Suc (Suc j))) =
        drop (Suc bs) (take (Suc (Suc j)) (pre @ c # post))"
    using assms by (intro substring_nat) simp_all
  moreover have "substring (pre @ post) (int bs) (int (Suc j)) = drop bs (take (Suc j) (pre @ post))"
    using assms by (intro substring_nat) simp_all
  moreover have "drop (Suc bs) (take (Suc (Suc j)) (pre @ c # post)) =
                 drop bs (take (Suc j) (pre @ post))"
    using assms by (simp add: Suc_diff_le)
  ultimately show ?thesis by (simp add: add.commute)
qed

lemma shifted_step:
  assumes sh: "shifted (length pre) j s1 s2" and j: "length pre \<le> j" "j < length (pre @ post)"
  shows "fst (scan_step (pre @ c # post) (Suc j) s1) = Suc (fst (scan_step (pre @ post) j s2)) \<and>
         shifted (length pre) (fst (scan_step (pre @ post) j s2))
           (snd (scan_step (pre @ c # post) (Suc j) s1)) (snd (scan_step (pre @ post) j s2))"
proof -
  have ch: "(pre @ c # post) ! Suc j = (pre @ post) ! j"
    using j by (simp add: nth_append Suc_diff_le)
  have sub: "substring (pre @ c # post) (blockStart s1) (int (Suc j) + 1) =
             substring (pre @ post) (blockStart s2) (int j + 1)" if "0 < depth s2"
  proof -
    define bs where "bs = nat (blockStart s2)"
    from sh that have rel: "int (length pre) \<le> blockStart s2" "blockStart s2 < int j"
      "blockStart s1 = blockStart s2 + 1"
      unfolding shifted_def by simp_all
    then have bs: "blockStart s2 = int bs" "length pre \<le> bs" "bs < j"
      and b1: "blockStart s1 = int bs + 1"
      unfolding bs_def by simp_all
    have "substring (pre @ c # post) (int bs + 1) (int j + 2) =
          substring (pre @ post) (int bs) (int j + 1)"
      using bs(2,3) j(2) by (intro substring_shift) simp_all
    then show ?thesis using bs(1) b1 by (simp add: add.commute)
  qed
  show ?thesis
  proof (cases "depth s2 = 1 \<and> \<not> inString s2 \<and> (pre @ post) ! j = CHR ''}''")
    case True
    then have "0 < depth s2" by simp
    note s = sub [OF this]
    from sh True have "blockStart s1 \<noteq> - 1" "blockStart s2 \<noteq> - 1"
      unfolding shifted_def by auto
    then show ?thesis
      using sh True s unfolding scan_step_def ch
      by (simp add: shifted_def Let_def)
  next
    case False
    then show ?thesis
      using sh j unfolding scan_step_def ch
      by (auto simp: shifted_def Let_def)
  qed
qed


lemma shifted_loop:
  "src = pre @ post \<Longrightarrow> shifted (length pre) j s1 s2 \<Longrightarrow> length pre \<le> j \<Longrightarrow>
   map content (blocks (scan_loop (pre @ c # post) (Suc j) s1)) =
   map content (blocks (scan_loop src j s2))"
proof (induction src j s2 arbitrary: s1 rule: scan_loop.induct)
  case (1 src j s2)
  show ?case
  proof (cases "j < length src")
    case False
    then have "scan_loop src j s2 = s2" by (simp add: scan_loop_done)
    moreover have "scan_loop (pre @ c # post) (Suc j) s1 = s1"
      using False "1.prems"(1) by (simp add: scan_loop_done)
    ultimately show ?thesis using "1.prems"(2) by (simp add: shifted_def)
  next
    case True
    let ?j' = "fst (scan_step src j s2)"
    let ?s2' = "snd (scan_step src j s2)"
    let ?s1' = "snd (scan_step (pre @ c # post) (Suc j) s1)"
    have jl: "j < length (pre @ post)" using True "1.prems"(1) by simp
    have step: "fst (scan_step (pre @ c # post) (Suc j) s1) = Suc ?j'"
      and sh': "shifted (length pre) ?j' ?s1' ?s2'"
      using shifted_step [OF "1.prems"(2) "1.prems"(3) jl, of c] "1.prems"(1) by simp_all
    have "j < ?j'" using scan_step_index [of src j s2] by auto
    then have le: "length pre \<le> ?j'" using "1.prems"(3) by simp
    have "map content (blocks (scan_loop (pre @ c # post) (Suc ?j') ?s1')) =
          map content (blocks (scan_loop src ?j' ?s2'))"
      using "1.IH" [OF True "1.prems"(1) sh' le] .
    moreover have "scan_loop src j s2 = scan_loop src ?j' ?s2'"
      using True by (rule scan_loop_step)
    moreover have "scan_loop (pre @ c # post) (Suc j) s1 = scan_loop (pre @ c # post) (Suc ?j') ?s1'"
      using jl step by (subst scan_loop.simps) simp
    ultimately show ?thesis by simp
  qed
qed

lemma scan_step_spurious:
  assumes "i < length src" and "src ! i = CHR ''}''" and "\<not> inString st" and "depth st = 0"
  shows "scan_step src i st = (i + 1, st)"
  using assms by (simp add: scan_step_def Let_def)

lemma spurious_brace_blocks:
  assumes d: "depth (scan_loop pre 0 scan_init) = 0"
    and s: "\<not> inString (scan_loop pre 0 scan_init)"
  shows "map content (extractBalancedBlocks (pre @ CHR ''}'' # post)) =
         map content (extractBalancedBlocks (pre @ post))"
proof -
  let ?st = "scan_loop pre 0 scan_init"
  let ?T1 = "pre @ CHR ''}'' # post"
  have b0: "blockStart scan_init < int 0" by (simp add: scan_init_def)
  have p1: "scan_loop ?T1 0 scan_init = scan_loop ?T1 (length pre) ?st"
    using s by (intro scan_loop_prefix [OF _ b0]) simp_all
  have p2: "scan_loop (pre @ post) 0 scan_init = scan_loop (pre @ post) (length pre) ?st"
    using s by (intro scan_loop_prefix [OF _ b0]) simp_all
  have "scan_step ?T1 (length pre) ?st = (length pre + 1, ?st)"
    using s d by (intro scan_step_spurious) simp_all
  then have p3: "scan_loop ?T1 (length pre) ?st = scan_loop ?T1 (Suc (length pre)) ?st"
    by (subst scan_loop.simps) simp
  have "shifted (length pre) (length pre) ?st ?st"
    using d by (simp add: shifted_def)
  then have "map content (blocks (scan_loop ?T1 (Suc (length pre)) ?st)) =
             map content (blocks (scan_loop (pre @ post) (length pre) ?st))"
    by (intro shifted_loop) simp_all
  then show ?thesis
    unfolding extractBalancedBlocks_def p1 p2 p3 .
qed


subsection \<open>The depth the scan ends with\<close>

lemma level_snoc:
  "level (s @ [c]) =
     (if foldl qstep Out s = Out \<and> c \<noteq> dq \<and> c \<noteq> sq then level_step (level s) c else level s)"
  by (simp add: level_def unquoted_append)

lemma mode_of_In: "inString st \<Longrightarrow> stringChar st = [q] \<Longrightarrow> mode_of st = In q"
  by (simp add: mode_of_def)

lemma mode_of_Out: "\<not> inString st \<Longrightarrow> mode_of st = Out"
  by (simp add: mode_of_def)

lemma tracks_step:
  assumes tr: "tracks src i st" and i: "i < length src"
  shows "tracks src (fst (scan_step src i st)) (snd (scan_step src i st))"
proof -
  let ?ch = "src ! i"
  have t1: "take (Suc i) src = take i src @ [?ch]"
    using i by (simp add: take_Suc_conv_app_nth)
  from tr i have d: "depth st = level (take i src)"
    and m: "mode_of st = foldl qstep Out (take i src)"
    and q: "inString st \<longrightarrow> (\<exists>q. stringChar st = [q])"
    unfolding tracks_def by simp_all
  show ?thesis
  proof (cases "inString st")
    case True
    with q obtain q where sc: "stringChar st = [q]" by blast
    have mq: "foldl qstep Out (take i src) = In q"
      using m True sc by (simp add: mode_of_def)
    show ?thesis
    proof (cases "?ch = bsl")
      case bs: True
      have step: "scan_step src i st = (i + 2, st)"
        using True bs by (simp add: scan_step_def)
      show ?thesis
      proof (cases "i + 2 \<le> length src")
        case le: True
        then have i1: "Suc i < length src" by simp
        have t2: "take (i + 2) src = (take i src @ [?ch]) @ [src ! Suc i]"
          using i1 t1 by (simp add: take_Suc_conv_app_nth)
        have e: "foldl qstep Out (take i src @ [?ch]) = Esc q" using mq bs by simp
        have "level (take i src @ [?ch]) = level (take i src)"
          using mq by (subst level_snoc) simp
        moreover have "level ((take i src @ [?ch]) @ [src ! Suc i]) = level (take i src @ [?ch])"
          using e by (subst level_snoc) simp
        ultimately have "level (take (i + 2) src) = level (take i src)"
          unfolding t2 by simp
        moreover have "foldl qstep Out (take (i + 2) src) = In q"
          unfolding t2 using e by simp
        ultimately show ?thesis
          unfolding step tracks_def using le d True sc by (simp add: mode_of_def)
      next
        case gt: False
        then have full: "take (i + 2) src = src" "src = take i src @ [?ch]"
          using i t1 by simp_all
        have "level src = level (take i src)"
          using mq bs by (subst full(2)) (simp add: level_snoc)
        moreover have "foldl qstep Out src \<noteq> Out"
          using mq bs by (subst full(2)) simp
        ultimately show ?thesis
          unfolding step tracks_def using gt d True sc full(1) by simp
      qed
    next
      case nb: False
      have "level (take (Suc i) src) = level (take i src)"
        unfolding t1 using mq by (simp add: level_snoc)
      moreover have "foldl qstep Out (take (Suc i) src) = (if ?ch = q then Out else In q)"
        unfolding t1 using mq nb by simp
      ultimately show ?thesis
        using True nb sc d i unfolding tracks_def scan_step_def
        by (simp add: mode_of_def)
    qed
  next
    case False
    have mo: "foldl qstep Out (take i src) = Out"
      using m False by (simp add: mode_of_def)
    have lv: "level (take (Suc i) src) =
        (if ?ch \<noteq> dq \<and> ?ch \<noteq> sq then level_step (level (take i src)) ?ch else level (take i src))"
      unfolding t1 using mo by (simp add: level_snoc)
    have md: "foldl qstep Out (take (Suc i) src) = (if ?ch = dq \<or> ?ch = sq then In ?ch else Out)"
      unfolding t1 using mo by simp
    show ?thesis
      using False d i lv md unfolding tracks_def scan_step_def
      by (auto simp: mode_of_def level_step_def Let_def)
  qed
qed

lemma tracks_loop:
  "tracks src i st \<Longrightarrow>
   depth (scan_loop src i st) = level src \<and>
   inString (scan_loop src i st) = (foldl qstep Out src \<noteq> Out)"
proof (induction src i st rule: scan_loop.induct)
  case (1 src i st)
  show ?case
  proof (cases "i < length src")
    case True
    have "tracks src (fst (scan_step src i st)) (snd (scan_step src i st))"
      using "1.prems" True by (rule tracks_step)
    then show ?thesis using "1.IH" [OF True] True by (simp add: scan_loop_step)
  next
    case False
    then have fin: "scan_loop src i st = st" by (simp add: scan_loop_done)
    show ?thesis
    proof (cases "i \<le> length src")
      case True
      with False have "take i src = src" by simp
      with "1.prems" True show ?thesis
        unfolding fin tracks_def by (auto simp: mode_of_def split: if_splits)
    next
      case gt: False
      then have "take i src = src" by simp
      with "1.prems" gt show ?thesis unfolding fin tracks_def by simp
    qed
  qed
qed

lemma tracks_init: "tracks src 0 scan_init"
  by (simp add: tracks_def scan_init_def level_def mode_of_def)

lemma scan_loop_level:
  "depth (scan_loop src 0 scan_init) = level src \<and>
   inString (scan_loop src 0 scan_init) = (foldl qstep Out src \<noteq> Out)"
  using tracks_init by (rule tracks_loop)


subsection \<open>Top-level blocks are returned\<close>

lemma balanced_block_last:
  assumes wf: "balanced_block blk"
  shows "2 \<le> length blk \<and> last blk = CHR ''}'' \<and> foldl qstep Out (butlast blk) = Out \<and>
         opens (butlast blk) = closes (butlast blk) + 1"
proof -
  from wf have ne: "blk \<noteq> []" and h: "hd blk = CHR ''{''" and eq: "opens blk = closes blk"
    and pp: "\<And>n. 0 < n \<Longrightarrow> n < length blk \<Longrightarrow> closes (take n blk) < opens (take n blk)"
    unfolding balanced_block_def by simp_all
  have l2: "2 \<le> length blk"
  proof (rule ccontr)
    assume "\<not> 2 \<le> length blk"
    with ne h have "blk = [CHR ''{'']" by (cases blk) (auto simp: not_le)
    with eq show False by (simp add: opens_def closes_def)
  qed
  have split: "blk = butlast blk @ [last blk]" using ne by simp
  have "take (length blk - 1) blk = butlast blk" by (simp add: butlast_conv_take)
  moreover have "closes (take (length blk - 1) blk) < opens (take (length blk - 1) blk)"
    using l2 by (intro pp) simp_all
  ultimately have lt: "closes (butlast blk) < opens (butlast blk)" by simp
  have "opens (butlast blk @ [last blk]) = closes (butlast blk @ [last blk])"
    using eq split by simp
  then have "last blk = CHR ''}'' \<and> foldl qstep Out (butlast blk) = Out \<and>
             opens (butlast blk) = closes (butlast blk) + 1"
    using lt by (simp add: opens_snoc closes_snoc split: if_splits)
  with l2 show ?thesis by simp
qed

lemma inside_step:
  assumes ins: "inside (length pre) blk k st" and k: "0 < k" "k < length blk - 1"
    and wf: "balanced_block blk" and src: "src = pre @ blk @ post"
  shows "\<exists>k'. fst (scan_step src (length pre + k) st) = length pre + k' \<and> k < k' \<and>
              k' \<le> length blk - 1 \<and> inside (length pre) blk k' (snd (scan_step src (length pre + k) st))"
proof -
  let ?L = "length pre"
  let ?ch = "blk ! k"
  from wf have pp: "\<And>n. 0 < n \<Longrightarrow> n < length blk \<Longrightarrow> closes (take n blk) < opens (take n blk)"
    unfolding balanced_block_def by simp
  from balanced_block_last [OF wf] have bl: "foldl qstep Out (butlast blk) = Out" by simp
  have kl: "k < length blk" using k by simp
  have ch: "src ! (?L + k) = ?ch" using src kl by (simp add: nth_append)
  have t1: "take (Suc k) blk = take k blk @ [?ch]"
    using k by (simp add: take_Suc_conv_app_nth)
  from ins have bst: "blockStart st = int ?L"
    and d: "depth st = int (opens (take k blk)) - int (closes (take k blk))"
    and m: "mode_of st = foldl qstep Out (take k blk)"
    and q: "inString st \<longrightarrow> (\<exists>q. stringChar st = [q])"
    unfolding inside_def by simp_all
  have p1: "closes (take (Suc k) blk) < opens (take (Suc k) blk)"
    using k by (intro pp) simp_all
  have p0: "closes (take k blk) < opens (take k blk)"
    using k by (intro pp) simp_all
  show ?thesis
  proof (cases "inString st")
    case True
    with q obtain q where sc: "stringChar st = [q]" by blast
    have mq: "foldl qstep Out (take k blk) = In q"
      using m True sc by (simp add: mode_of_def)
    have o1: "opens (take (Suc k) blk) = opens (take k blk)"
      and c1: "closes (take (Suc k) blk) = closes (take k blk)"
      unfolding t1 using mq by (simp_all add: opens_snoc closes_snoc)
    show ?thesis
    proof (cases "?ch = bsl")
      case bs: True
      have step: "scan_step src (?L + k) st = (?L + k + 2, st)"
        using True bs ch by (simp add: scan_step_def)
      have e: "foldl qstep Out (take (Suc k) blk) = Esc q"
        unfolding t1 using mq bs by simp
      have "Suc k \<noteq> length blk - 1"
      proof
        assume "Suc k = length blk - 1"
        then have "take (Suc k) blk = butlast blk" by (simp add: butlast_conv_take)
        with e bl show False by simp
      qed
      with k have k2: "k + 2 \<le> length blk - 1" by simp
      then have t2: "take (k + 2) blk = take (Suc k) blk @ [blk ! Suc k]"
        by (simp add: take_Suc_conv_app_nth)
      have "opens (take (k + 2) blk) = opens (take k blk)"
        and "closes (take (k + 2) blk) = closes (take k blk)"
        and "foldl qstep Out (take (k + 2) blk) = In q"
        unfolding t2 using e o1 c1 by (simp_all add: opens_snoc closes_snoc)
      then have "inside ?L blk (k + 2) st"
        using bst d True sc unfolding inside_def by (simp add: mode_of_def)
      with step k2 show ?thesis by (intro exI [of _ "k + 2"]) simp
    next
      case nb: False
      have "foldl qstep Out (take (Suc k) blk) = (if ?ch = q then Out else In q)"
        unfolding t1 using mq nb by simp
      then have "fst (scan_step src (?L + k) st) = ?L + Suc k \<and>
                 inside ?L blk (Suc k) (snd (scan_step src (?L + k) st))"
        using True nb sc bst d o1 c1 ch unfolding inside_def scan_step_def
        by (simp add: mode_of_def)
      with k show ?thesis by (intro exI [of _ "Suc k"]) simp
    qed
  next
    case False
    have mo: "foldl qstep Out (take k blk) = Out"
      using m False by (simp add: mode_of_def)
    have o1: "opens (take (Suc k) blk) = opens (take k blk) + (if ?ch = CHR ''{'' then 1 else 0)"
      and c1: "closes (take (Suc k) blk) = closes (take k blk) + (if ?ch = CHR ''}'' then 1 else 0)"
      and m1: "foldl qstep Out (take (Suc k) blk) = (if ?ch = dq \<or> ?ch = sq then In ?ch else Out)"
      unfolding t1 using mo by (simp_all add: opens_snoc closes_snoc)
    have "fst (scan_step src (?L + k) st) = ?L + Suc k \<and>
          inside ?L blk (Suc k) (snd (scan_step src (?L + k) st))"
      using False bst d o1 c1 m1 ch p1 p0 unfolding inside_def scan_step_def
      by (auto simp: mode_of_def Let_def)
    with k show ?thesis by (intro exI [of _ "Suc k"]) simp
  qed
qed

lemma inside_close:
  assumes ins: "inside (length pre) blk (length blk - 1) st"
    and wf: "balanced_block blk" and src: "src = pre @ blk @ post"
  shows "block_at pre blk \<in> set (blocks (snd (scan_step src (length pre + (length blk - 1)) st)))"
proof -
  let ?L = "length pre"
  let ?i = "?L + (length blk - 1)"
  from balanced_block_last [OF wf] have l2: "2 \<le> length blk" and la: "last blk = CHR ''}''"
    and bl: "foldl qstep Out (butlast blk) = Out"
    and cnt: "opens (butlast blk) = closes (butlast blk) + 1" by simp_all
  have tb: "take (length blk - 1) blk = butlast blk" by (simp add: butlast_conv_take)
  from ins have bst: "blockStart st = int ?L" and d: "depth st = 1"
    and m: "mode_of st = Out"
    unfolding inside_def tb using bl cnt by simp_all
  have ns: "\<not> inString st" using m by (simp add: mode_of_def split: if_splits)
  have "length blk - 1 < length blk" using l2 by simp
  then have "(blk @ post) ! (length blk - 1) = blk ! (length blk - 1)"
    by (simp only: nth_append if_True)
  then have "src ! ?i = blk ! (length blk - 1)"
    unfolding src by (simp only: nth_append_length_plus)
  also have "\<dots> = CHR ''}''"
    using la wf unfolding balanced_block_def by (simp add: last_conv_nth)
  finally have ch: "src ! ?i = CHR ''}''" .
  have "substring src (int ?L) (int (?L + length blk)) = drop ?L (take (?L + length blk) src)"
    using src by (intro substring_nat) simp_all
  then have c: "substring src (int ?L) (int ?i + 1) = blk"
    using src l2 by (simp add: add.commute)
  have "substring src (int (?L - 300)) (int ?L) = drop (?L - 300) (take ?L src)"
    using src by (intro substring_nat) simp_all
  moreover have "max 0 (int ?L - 300) = int (?L - 300)" by simp
  ultimately have p: "substring src (max 0 (int ?L - 300)) (int ?L) = drop (?L - 300) pre"
    using src by simp
  have e: "int ?i = int (?L + length blk) - 1" using l2 by simp
  have "snd (scan_step src ?i st) =
        st\<lparr>blocks := blocks st @ [block_at pre blk], blockStart := - 1, depth := 0\<rparr>"
    unfolding scan_step_def block_at_def using ns ch bst d c p e
    by (simp add: Let_def)
  then show ?thesis by simp
qed

lemma scan_step_blocks_mono:
  "set (blocks st) \<subseteq> set (blocks (snd (scan_step src i st)))"
  by (auto simp: scan_step_def Let_def)

lemma scan_loop_blocks_mono:
  "b \<in> set (blocks st) \<Longrightarrow> b \<in> set (blocks (scan_loop src i st))"
proof (induction src i st rule: scan_loop.induct)
  case (1 src i st)
  show ?case
  proof (cases "i < length src")
    case True
    have "b \<in> set (blocks (snd (scan_step src i st)))"
      using "1.prems" scan_step_blocks_mono by blast
    then show ?thesis using "1.IH" [OF True] True by (simp add: scan_loop_step)
  next
    case False
    then show ?thesis using "1.prems" by (simp add: scan_loop_done)
  qed
qed

lemma inside_loop:
  assumes wf: "balanced_block blk" and src: "src = pre @ blk @ post"
  shows "inside (length pre) blk k st \<Longrightarrow> 0 < k \<Longrightarrow> k \<le> length blk - 1 \<Longrightarrow>
         block_at pre blk \<in> set (blocks (scan_loop src (length pre + k) st))"
proof (induction "length blk - 1 - k" arbitrary: k st rule: less_induct)
  case less
  let ?i = "length pre + k"
  from balanced_block_last [OF wf] have l2: "2 \<le> length blk" by simp
  have il: "?i < length src" using src less.prems(3) l2 by simp
  note unfold = scan_loop_step [OF il, of st]
  show ?case
  proof (cases "k = length blk - 1")
    case True
    have "block_at pre blk \<in> set (blocks (snd (scan_step src ?i st)))"
      using less.prems(1) wf src unfolding True by (rule inside_close)
    then show ?thesis unfolding unfold by (rule scan_loop_blocks_mono)
  next
    case False
    with less.prems(3) have k: "k < length blk - 1" by simp
    from inside_step [OF less.prems(1) less.prems(2) k wf src]
    obtain k' where f: "fst (scan_step src ?i st) = length pre + k'" and kk: "k < k'"
      and le: "k' \<le> length blk - 1"
      and ins: "inside (length pre) blk k' (snd (scan_step src ?i st))" by blast
    have "block_at pre blk \<in> set (blocks (scan_loop src (length pre + k') (snd (scan_step src ?i st))))"
      using kk le less.prems(2) by (intro less.hyps [OF _ ins]) simp_all
    then show ?thesis unfolding unfold f .
  qed
qed

lemma top_level_block_returned:
  assumes m: "foldl qstep Out pre = Out" and l: "level pre = 0" and wf: "balanced_block blk"
  shows "block_at pre blk \<in> set (extractBalancedBlocks (pre @ blk @ post))"
proof -
  let ?src = "pre @ blk @ post"
  let ?L = "length pre"
  let ?st = "scan_loop pre 0 scan_init"
  from scan_loop_level [of pre] m l have d: "depth ?st = 0" and s: "\<not> inString ?st" by simp_all
  from balanced_block_last [OF wf] have l2: "2 \<le> length blk" by simp
  from wf have h: "hd blk = CHR ''{''" and ne: "blk \<noteq> []" unfolding balanced_block_def by simp_all
  have b0: "blockStart scan_init < int 0" by (simp add: scan_init_def)
  have p: "scan_loop ?src 0 scan_init = scan_loop ?src ?L ?st"
    using s by (intro scan_loop_prefix [OF _ b0]) simp_all
  have ch: "?src ! ?L = CHR ''{''" using h ne by (simp add: nth_append hd_conv_nth)
  let ?st1 = "?st\<lparr>depth := 1, blockStart := int ?L\<rparr>"
  have step: "scan_step ?src ?L ?st = (?L + 1, ?st1)"
    using ch s d by (simp add: scan_step_def)
  have il: "?L < length ?src" using ne by simp
  have u: "scan_loop ?src ?L ?st = scan_loop ?src (?L + 1) ?st1"
    using scan_loop_step [OF il, of ?st] step by simp
  have "take 1 blk = [CHR ''{'']" using h ne by (cases blk) simp_all
  then have "inside ?L blk 1 ?st1"
    using s unfolding inside_def by (simp add: opens_def closes_def mode_of_def)
  then have "block_at pre blk \<in> set (blocks (scan_loop ?src (?L + 1) ?st1))"
    using l2 by (intro inside_loop [OF wf refl]) simp_all
  then show ?thesis unfolding extractBalancedBlocks_def p u .
qed


text \<open>
  C4. Every block returned by \<open>extractBalancedBlocks\<close> has a content that starts with
  \<open>{\<close> and ends with the matching \<open>}\<close>: counted outside quoted regions, the opening and
  closing braces of the content are equally many, and every proper non-empty prefix of it
  has more opening than closing ones. The content is the text from \<open>startIndex\<close> to
  \<open>endIndex\<close> inclusive, and \<open>startIndex < endIndex\<close>. The scan is total, and an unmatched
  \<open>}\<close> does not disturb it: met outside a string at depth 0 it leaves the whole state as
  it was (the depth stays 0), and a text with such a brace inserted where no block and no
  string is open yields blocks with the same contents as the text without it. The depth
  the scan ends with is the nesting depth of the text in which a closing brace at depth 0
  is ignored, and the scan ends inside a string exactly when the text ends inside a quoted
  region. Every well-formed top-level block that is present is returned: when a text
  \<open>blk\<close> that starts with \<open>{\<close> and whose braces balance at its last character and not
  before follows a text \<open>pre\<close> that ends outside quoted regions at nesting depth 0,
  whatever unmatched closing braces \<open>pre\<close> holds and whatever comes after \<open>blk\<close>, the
  blocks returned include the one with content \<open>blk\<close>, at the indices of \<open>blk\<close>, with
  the last 300 characters of \<open>pre\<close> as preceding text.
\<close>

theorem extractBalancedBlocks_well_formed_and_tolerant:
  "(\<forall>b\<in>set (extractBalancedBlocks text).
      content b \<noteq> [] \<and> hd (content b) = CHR ''{'' \<and> last (content b) = CHR ''}'' \<and>
      opens (content b) = closes (content b) \<and>
      (\<forall>n. 0 < n \<and> n < length (content b) \<longrightarrow>
         closes (take n (content b)) < opens (take n (content b))) \<and>
      0 \<le> startIndex b \<and> startIndex b < endIndex b \<and> endIndex b < int (length text) \<and>
      content b = substring text (startIndex b) (endIndex b + 1)) \<and>
   (i < length text \<and> text ! i = CHR ''}'' \<and> \<not> inString st \<and> depth st = 0 \<longrightarrow>
      scan_step text i st = (i + 1, st)) \<and>
   (depth (scan_loop pre 0 scan_init) = 0 \<and> \<not> inString (scan_loop pre 0 scan_init) \<longrightarrow>
      map content (extractBalancedBlocks (pre @ CHR ''}'' # post)) =
      map content (extractBalancedBlocks (pre @ post))) \<and>
   depth (scan_loop text 0 scan_init) = level text \<and>
   inString (scan_loop text 0 scan_init) = (foldl qstep Out text \<noteq> Out) \<and>
   (foldl qstep Out pre = Out \<and> level pre = 0 \<and>
    blk \<noteq> [] \<and> hd blk = CHR ''{'' \<and> opens blk = closes blk \<and>
    (\<forall>n. 0 < n \<and> n < length blk \<longrightarrow> closes (take n blk) < opens (take n blk)) \<longrightarrow>
      \<lparr>content = blk, startIndex = int (length pre),
       endIndex = int (length pre + length blk) - 1,
       precedingText = drop (length pre - 300) pre\<rparr>
      \<in> set (extractBalancedBlocks (pre @ blk @ post)))"
proof (intro conjI ballI impI)
  fix b assume "b \<in> set (extractBalancedBlocks text)"
  then have wf: "well_formed_block text b" by (rule extractBalancedBlocks_well_formed)
  then show "content b \<noteq> []" and "hd (content b) = CHR ''{''" and "last (content b) = CHR ''}''"
    and "opens (content b) = closes (content b)"
    and "\<forall>n. 0 < n \<and> n < length (content b) \<longrightarrow>
           closes (take n (content b)) < opens (take n (content b))"
    and "0 \<le> startIndex b" and "startIndex b < endIndex b" and "endIndex b < int (length text)"
    and "content b = substring text (startIndex b) (endIndex b + 1)"
    unfolding well_formed_block_def by blast+
next
  assume "i < length text \<and> text ! i = CHR ''}'' \<and> \<not> inString st \<and> depth st = 0"
  then show "scan_step text i st = (i + 1, st)" by (intro scan_step_spurious) simp_all
next
  assume "depth (scan_loop pre 0 scan_init) = 0 \<and> \<not> inString (scan_loop pre 0 scan_init)"
  then show "map content (extractBalancedBlocks (pre @ CHR ''}'' # post)) =
             map content (extractBalancedBlocks (pre @ post))"
    by (intro spurious_brace_blocks) simp_all
next
  show "depth (scan_loop text 0 scan_init) = level text"
    using scan_loop_level [where src = "text"] by simp
next
  show "inString (scan_loop text 0 scan_init) = (foldl qstep Out text \<noteq> Out)"
    using scan_loop_level [where src = "text"] by simp
next
  assume a: "foldl qstep Out pre = Out \<and> level pre = 0 \<and>
    blk \<noteq> [] \<and> hd blk = CHR ''{'' \<and> opens blk = closes blk \<and>
    (\<forall>n. 0 < n \<and> n < length blk \<longrightarrow> closes (take n blk) < opens (take n blk))"
  then have "balanced_block blk" unfolding balanced_block_def by simp
  with a have "block_at pre blk \<in> set (extractBalancedBlocks (pre @ blk @ post))"
    by (intro top_level_block_returned) simp_all
  then show "\<lparr>content = blk, startIndex = int (length pre),
       endIndex = int (length pre + length blk) - 1,
       precedingText = drop (length pre - 300) pre\<rparr>
      \<in> set (extractBalancedBlocks (pre @ blk @ post))"
    unfolding block_at_def .
qed

text \<open>
  The theorem on \<open>} {a:{b}}\<close>, whose leading brace is unmatched, on \<open>{x}  {y}\<close> with an
  unmatched brace inserted between the two blocks, and on \<open>} {a} {b} {c}\<close>, where the
  third block \<open>{c}\<close> follows an unmatched brace and two blocks.
\<close>

theorem extractBalancedBlocks_well_formed_and_tolerant_witness:
  "extractBalancedBlocks ''} {a:{b}}'' =
     [\<lparr>content = ''{a:{b}}'', startIndex = 2, endIndex = 8, precedingText = ''} ''\<rparr>] \<and>
   opens ''{a:{b}}'' = closes ''{a:{b}}'' \<and>
   closes (take 6 ''{a:{b}}'') < opens (take 6 ''{a:{b}}'') \<and>
   ''{a:{b}}'' = substring ''} {a:{b}}'' 2 (8 + 1) \<and>
   (0::nat) < length ''} {a:{b}}'' \<and> ''} {a:{b}}'' ! 0 = CHR ''}'' \<and>
   \<not> inString scan_init \<and> depth scan_init = 0 \<and>
   scan_step ''} {a:{b}}'' 0 scan_init = (0 + 1, scan_init) \<and>
   depth (scan_loop ''{x} '' 0 scan_init) = 0 \<and> \<not> inString (scan_loop ''{x} '' 0 scan_init) \<and>
   map content (extractBalancedBlocks (''{x} '' @ CHR ''}'' # '' {y}'')) =
   map content (extractBalancedBlocks (''{x} '' @ '' {y}'')) \<and>
   depth (scan_loop ''}} {a {'' 0 scan_init) = 2 \<and> level ''}} {a {'' = 2 \<and>
   foldl qstep Out ''} {a} {b} '' = Out \<and> level ''} {a} {b} '' = 0 \<and>
   hd ''{c}'' = CHR ''{'' \<and> opens ''{c}'' = closes ''{c}'' \<and>
   closes (take 1 ''{c}'') < opens (take 1 ''{c}'') \<and>
   closes (take 2 ''{c}'') < opens (take 2 ''{c}'') \<and>
   \<lparr>content = ''{c}'', startIndex = 10, endIndex = 12, precedingText = ''} {a} {b} ''\<rparr>
     \<in> set (extractBalancedBlocks ''} {a} {b} {c}'') \<and>
   map content (extractBalancedBlocks ''} {a} {b} {c}'') = [''{a}'', ''{b}'', ''{c}'']"
proof -
  let ?t = "''} {a:{b}}''"
  let ?b = "\<lparr>content = ''{a:{b}}'', startIndex = 2, endIndex = 8, precedingText = ''} ''\<rparr>"
  note T = extractBalancedBlocks_well_formed_and_tolerant
  have bs: "extractBalancedBlocks ?t = [?b]" by code_simp
  then have mem: "?b \<in> set (extractBalancedBlocks ?t)" by simp
  note B = T [of ?t, THEN conjunct1, rule_format, OF mem]
  have o: "opens ''{a:{b}}'' = closes ''{a:{b}}''" using B by simp
  have "0 < (6::nat) \<and> 6 < length (content ?b)" by simp
  then have "closes (take 6 (content ?b)) < opens (take 6 (content ?b))" using B by blast
  then have p: "closes (take 6 ''{a:{b}}'') < opens (take 6 ''{a:{b}}'')" by simp
  have c: "''{a:{b}}'' = substring ?t 2 (8 + 1)" using B by simp
  have h1: "(0::nat) < length ?t" and h2: "?t ! 0 = CHR ''}''" by simp_all
  have h3: "\<not> inString scan_init" and h4: "depth scan_init = 0" by (simp_all add: scan_init_def)
  have s: "scan_step ?t 0 scan_init = (0 + 1, scan_init)"
    using T [of ?t 0 scan_init, THEN conjunct2, THEN conjunct1] h1 h2 h3 h4 by blast
  have d: "depth (scan_loop ''{x} '' 0 scan_init) = 0" by code_simp
  have q: "\<not> inString (scan_loop ''{x} '' 0 scan_init)" by code_simp
  have m: "map content (extractBalancedBlocks (''{x} '' @ CHR ''}'' # '' {y}'')) =
           map content (extractBalancedBlocks (''{x} '' @ '' {y}''))"
    using T [where pre = "''{x} ''" and post = "'' {y}''",
             THEN conjunct2, THEN conjunct2, THEN conjunct1] d q by blast
  have lv: "level ''}} {a {'' = 2" by code_simp
  have dl: "depth (scan_loop ''}} {a {'' 0 scan_init) = 2"
    using T [of "''}} {a {''", THEN conjunct2, THEN conjunct2, THEN conjunct2, THEN conjunct1] lv
    by simp
  have f1: "foldl qstep Out ''} {a} {b} '' = Out" by code_simp
  have f2: "level ''} {a} {b} '' = 0" by code_simp
  have f3: "''{c}'' \<noteq> []" by simp
  have f4: "hd ''{c}'' = CHR ''{''" by simp
  have f5: "opens ''{c}'' = closes ''{c}''" by code_simp
  have f6: "closes (take 1 ''{c}'') < opens (take 1 ''{c}'')" by code_simp
  have f7: "closes (take 2 ''{c}'') < opens (take 2 ''{c}'')" by code_simp
  have f8: "\<forall>n. 0 < n \<and> n < length ''{c}'' \<longrightarrow> closes (take n ''{c}'') < opens (take n ''{c}'')"
  proof (intro allI impI)
    fix n :: nat assume "0 < n \<and> n < length ''{c}''"
    then have "n = 1 \<or> n = 2" by auto
    with f6 f7 show "closes (take n ''{c}'') < opens (take n ''{c}'')" by blast
  qed
  have hyp: "foldl qstep Out ''} {a} {b} '' = Out \<and> level ''} {a} {b} '' = 0 \<and>
    ''{c}'' \<noteq> [] \<and> hd ''{c}'' = CHR ''{'' \<and> opens ''{c}'' = closes ''{c}'' \<and>
    (\<forall>n. 0 < n \<and> n < length ''{c}'' \<longrightarrow> closes (take n ''{c}'') < opens (take n ''{c}''))"
    by (intro conjI) (fact f1 f2 f3 f4 f5 f8)+
  have "\<lparr>content = ''{c}'', startIndex = int (length ''} {a} {b} ''),
         endIndex = int (length ''} {a} {b} '' + length ''{c}'') - 1,
         precedingText = drop (length ''} {a} {b} '' - 300) ''} {a} {b} ''\<rparr>
        \<in> set (extractBalancedBlocks (''} {a} {b} '' @ ''{c}'' @ []))"
    by (rule T [where pre = "''} {a} {b} ''" and blk = "''{c}''" and post = "[]",
                THEN conjunct2, THEN conjunct2, THEN conjunct2, THEN conjunct2, THEN conjunct2,
                THEN mp])
       (fact hyp)
  then have r: "\<lparr>content = ''{c}'', startIndex = 10, endIndex = 12,
                 precedingText = ''} {a} {b} ''\<rparr>
                \<in> set (extractBalancedBlocks ''} {a} {b} {c}'')"
    by simp
  have a: "map content (extractBalancedBlocks ''} {a} {b} {c}'') = [''{a}'', ''{b}'', ''{c}'']"
    by code_simp
  show ?thesis by (intro conjI) (fact bs o p c h1 h2 h3 h4 s d q m dl lv f1 f2 f4 f5 f6 f7 r a)+
qed


section \<open>Body normalization\<close>











end
